theory Spec2Isabelle
  imports Main "HOL-Library.AList"
begin

section \<open>The real estate game of \<^verbatim>\<open>Game.py\<close>\<close>

text \<open>
  A shallow embedding of the three classes of \<^verbatim>\<open>Game.py\<close>: \<^verbatim>\<open>GameSpace\<close>,
  \<^verbatim>\<open>Player\<close> and \<^verbatim>\<open>RealEstateGame\<close>. Python integers are \<open>int\<close>, player names are
  strings, the attribute \<^verbatim>\<open>_game_space_owner\<close> (a name or \<^verbatim>\<open>None\<close>) is a
  \<open>string option\<close>. An exception of the source is the left summand of the result; a run
  of several operations stops at the first exception.
\<close>

datatype error = KeyError | IndexError | TypeError | ZeroDivisionError

text \<open>
  A space is named by the string \<^verbatim>\<open>'GO'\<close> or by its number; a player's location is the
  string \<^verbatim>\<open>"GO"\<close> at first and a number once \<^verbatim>\<open>set_location\<close> has run.
\<close>

datatype space_name = GO | Number int

subsection \<open>Class \<^verbatim>\<open>GameSpace\<close>\<close>

record GameSpace =
  game_space_name :: space_name
  rent :: int
  purchase_price :: int
  game_space_owner :: "string option"

definition GameSpace_init :: "space_name \<Rightarrow> int \<Rightarrow> GameSpace" where
  "GameSpace_init nm r =
     \<lparr>game_space_name = nm, rent = r, purchase_price = r * 5, game_space_owner = None\<rparr>"

definition set_game_space_owner :: "string \<Rightarrow> GameSpace \<Rightarrow> GameSpace" where
  "set_game_space_owner pname s = s\<lparr>game_space_owner := Some pname\<rparr>"

definition remove_game_space_owner :: "GameSpace \<Rightarrow> GameSpace" where
  "remove_game_space_owner s = s\<lparr>game_space_owner := None\<rparr>"

subsection \<open>Class \<^verbatim>\<open>Player\<close>\<close>

record Player =
  player_name :: string
  account_balance :: int
  current_location :: space_name
  owned_game_spaces :: "space_name list"

definition Player_init :: "string \<Rightarrow> int \<Rightarrow> Player" where
  "Player_init pname starting_account_balance =
     \<lparr>player_name = pname, account_balance = starting_account_balance,
      current_location = GO, owned_game_spaces = []\<rparr>"

definition deposit :: "int \<Rightarrow> Player \<Rightarrow> Player" where
  "deposit amount p = p\<lparr>account_balance := account_balance p + amount\<rparr>"

definition withdraw :: "int \<Rightarrow> Player \<Rightarrow> Player" where
  "withdraw amount p = p\<lparr>account_balance := account_balance p - amount\<rparr>"

definition set_location :: "space_name \<Rightarrow> Player \<Rightarrow> Player" where
  "set_location nm p = p\<lparr>current_location := nm\<rparr>"

definition get_location :: "Player \<Rightarrow> int" where
  "get_location p = (case current_location p of GO \<Rightarrow> 0 | Number i \<Rightarrow> i)"

definition buy_game_space :: "space_name \<Rightarrow> Player \<Rightarrow> Player" where
  "buy_game_space nm p = p\<lparr>owned_game_spaces := owned_game_spaces p @ [nm]\<rparr>"

definition clear_owned_game_spaces :: "Player \<Rightarrow> Player" where
  "clear_owned_game_spaces p = p\<lparr>owned_game_spaces := []\<rparr>"

subsection \<open>Class \<^verbatim>\<open>RealEstateGame\<close>\<close>

text \<open>
  \<^verbatim>\<open>_game_board\<close> is a list of one-entry dictionaries \<^verbatim>\<open>{num: GameSpace}\<close>, here a
  list of pairs. \<^verbatim>\<open>_players\<close> is a dictionary, which keeps the order of insertion
  (\<^verbatim>\<open>check_game_over\<close> depends on it): an association list with distinct keys.
\<close>

record RealEstateGame =
  game_board :: "(int \<times> GameSpace) list"
  players :: "(string \<times> Player) list"

definition new_game :: RealEstateGame where
  "new_game = \<lparr>game_board = [], players = []\<rparr>"

text \<open>\<^verbatim>\<open>self._players[name]\<close>: the object stored under the name, or \<^verbatim>\<open>KeyError\<close>.\<close>

definition get_player :: "RealEstateGame \<Rightarrow> string \<Rightarrow> error + Player" where
  "get_player g pname =
     (case map_of (players g) pname of None \<Rightarrow> Inl KeyError | Some p \<Rightarrow> Inr p)"

text \<open>A method that mutates the player object stored under a name that is present.\<close>

definition upd_player :: "string \<Rightarrow> (Player \<Rightarrow> Player) \<Rightarrow> RealEstateGame \<Rightarrow> RealEstateGame" where
  "upd_player pname f g = g\<lparr>players := AList.map_entry pname f (players g)\<rparr>"

text \<open>
  \<^verbatim>\<open>self._game_board[i]\<close> on a list: a negative index counts from the end, an index out
  of range raises \<^verbatim>\<open>IndexError\<close>.
\<close>

definition list_index :: "'a list \<Rightarrow> int \<Rightarrow> error + nat" where
  "list_index xs i =
     (let n = int (length xs); j = (if i < 0 then n + i else i)
      in if 0 \<le> j \<and> j < n then Inr (nat j) else Inl IndexError)"

text \<open>\<^verbatim>\<open>self._game_board[i][i]\<close>: the dictionary at list index i, then its key i.\<close>

definition get_space :: "RealEstateGame \<Rightarrow> int \<Rightarrow> error + GameSpace" where
  "get_space g i =
     (case list_index (game_board g) i of
        Inl e \<Rightarrow> Inl e
      | Inr j \<Rightarrow> (case game_board g ! j of (k, s) \<Rightarrow> if k = i then Inr s else Inl KeyError))"

text \<open>A method that mutates the space object found by \<^verbatim>\<open>self._game_board[i][i]\<close>.\<close>

definition upd_space :: "int \<Rightarrow> (GameSpace \<Rightarrow> GameSpace) \<Rightarrow> RealEstateGame \<Rightarrow> RealEstateGame" where
  "upd_space i f g =
     (case list_index (game_board g) i of
        Inl e \<Rightarrow> g
      | Inr j \<Rightarrow> g\<lparr>game_board := (game_board g)[j := (fst (game_board g ! j), f (snd (game_board g ! j)))]\<rparr>)"

definition create_spaces :: "RealEstateGame \<Rightarrow> int \<Rightarrow> int list \<Rightarrow> RealEstateGame" where
  "create_spaces g go_money rent_list =
     g\<lparr>game_board := game_board g @ (0, GameSpace_init GO go_money) #
          map (\<lambda>(num, r). (num, GameSpace_init (Number num) r)) (zip [1..24] rent_list)\<rparr>"

text \<open>
  \<^verbatim>\<open>create_player\<close> returns nothing and never raises; what it prints is the first
  component of the result.
\<close>

definition create_player :: "RealEstateGame \<Rightarrow> string \<Rightarrow> int \<Rightarrow> string option \<times> RealEstateGame" where
  "create_player g pname starting_account_balance =
     (if pname \<in> fst ` set (players g)
      then (Some ''Player was not added to the game as this name is already in use.'', g)
      else (None, g\<lparr>players := AList.update pname (Player_init pname starting_account_balance) (players g)\<rparr>))"

definition get_player_account_balance :: "RealEstateGame \<Rightarrow> string \<Rightarrow> error + int" where
  "get_player_account_balance g pname =
     (case get_player g pname of Inl e \<Rightarrow> Inl e | Inr player_obj \<Rightarrow> Inr (account_balance player_obj))"

definition get_player_current_position :: "RealEstateGame \<Rightarrow> string \<Rightarrow> error + int" where
  "get_player_current_position g pname =
     (case get_player g pname of Inl e \<Rightarrow> Inl e | Inr player_obj \<Rightarrow> Inr (get_location player_obj))"

definition get_list_of_player_owned_spaces :: "RealEstateGame \<Rightarrow> string \<Rightarrow> error + space_name list" where
  "get_list_of_player_owned_spaces g pname =
     (case get_player g pname of Inl e \<Rightarrow> Inl e | Inr player_obj \<Rightarrow> Inr (owned_game_spaces player_obj))"

definition buy_space :: "RealEstateGame \<Rightarrow> string \<Rightarrow> error + bool \<times> RealEstateGame" where
  "buy_space g pname =
     (case get_player g pname of
        Inl e \<Rightarrow> Inl e
      | Inr player_obj \<Rightarrow>
          (case get_space g (get_location player_obj) of
             Inl e \<Rightarrow> Inl e
           | Inr current_space \<Rightarrow>
               if account_balance player_obj = 0 \<or> game_space_owner current_space \<noteq> None
                  \<or> game_space_name current_space = GO
                  \<or> account_balance player_obj \<le> purchase_price current_space
               then Inr (False, g)
               else Inr (True,
                 upd_space (get_location player_obj) (set_game_space_owner pname)
                   (upd_player pname (buy_game_space (game_space_name current_space))
                     (upd_player pname (withdraw (purchase_price current_space)) g)))))"

definition pass_go :: "RealEstateGame \<Rightarrow> string \<Rightarrow> error + RealEstateGame" where
  "pass_go g pname =
     (case get_space g 0 of
        Inl e \<Rightarrow> Inl e
      | Inr go_space \<Rightarrow>
          (case get_player g pname of
             Inl e \<Rightarrow> Inl e
           | Inr player_obj \<Rightarrow> Inr (upd_player pname (deposit (rent go_space)) g)))"

definition movement :: "RealEstateGame \<Rightarrow> string \<Rightarrow> int \<Rightarrow> error + RealEstateGame" where
  "movement g pname spaces_to_move =
     (case get_player g pname of
        Inl e \<Rightarrow> Inl e
      | Inr player_obj \<Rightarrow>
          (let move = get_location player_obj + spaces_to_move;
               len = int (length (game_board g))
           in if move < len - 1
              then Inr (upd_player pname (set_location (Number move)) g)
              else if len = 0 then Inl ZeroDivisionError
              else pass_go (upd_player pname (set_location (Number (move mod len))) g) pname))"

text \<open>The loop of \<^verbatim>\<open>lose_game\<close> over the player's list of owned spaces.\<close>

fun remove_owners :: "space_name list \<Rightarrow> RealEstateGame \<Rightarrow> error + RealEstateGame" where
  "remove_owners [] g = Inr g"
| "remove_owners (GO # rest) g = Inl TypeError"
| "remove_owners (Number i # rest) g =
     (case get_space g i of
        Inl e \<Rightarrow> Inl e
      | Inr space_obj \<Rightarrow> remove_owners rest (upd_space i remove_game_space_owner g))"

definition lose_game :: "RealEstateGame \<Rightarrow> string \<Rightarrow> error + RealEstateGame" where
  "lose_game g pname =
     (case get_player g pname of
        Inl e \<Rightarrow> Inl e
      | Inr player_obj \<Rightarrow>
          (case remove_owners (owned_game_spaces player_obj) g of
             Inl e \<Rightarrow> Inl e
           | Inr g' \<Rightarrow> Inr (upd_player pname clear_owned_game_spaces g')))"

definition pay_rent :: "RealEstateGame \<Rightarrow> string \<Rightarrow> error + RealEstateGame" where
  "pay_rent g pname =
     (case get_player g pname of
        Inl e \<Rightarrow> Inl e
      | Inr player \<Rightarrow>
          (case get_space g (get_location player) of
             Inl e \<Rightarrow> Inl e
           | Inr location_obj \<Rightarrow>
               (case game_space_owner location_obj of
                  None \<Rightarrow> Inr g
                | Some owner \<Rightarrow>
                    if owner = ''GO'' then Inr g
                    else (case get_player g owner of
                            Inl e \<Rightarrow> Inl e
                          | Inr owner_obj \<Rightarrow>
                              if rent location_obj < account_balance player
                              then Inr (upd_player owner (deposit (rent location_obj))
                                         (upd_player pname (withdraw (rent location_obj)) g))
                              else lose_game
                                     (upd_player owner (deposit (account_balance player))
                                       (upd_player pname (withdraw (account_balance player)) g))
                                     pname))))"

definition move_player :: "RealEstateGame \<Rightarrow> string \<Rightarrow> int \<Rightarrow> error + RealEstateGame" where
  "move_player g pname spaces_to_move =
     (case get_player_account_balance g pname of
        Inl e \<Rightarrow> Inl e
      | Inr bal \<Rightarrow>
          if bal = 0 then Inr g
          else (case movement g pname spaces_to_move of
                  Inl e \<Rightarrow> Inl e
                | Inr g' \<Rightarrow> pay_rent g' pname))"

text \<open>
  The loop of \<^verbatim>\<open>check_game_over\<close> over the dictionary, in insertion order, on the pair
  of \<^verbatim>\<open>counter\<close> and \<^verbatim>\<open>winner\<close> (\<open>None\<close> is Python's \<^verbatim>\<open>None\<close>).
\<close>

fun count_players :: "(string \<times> Player) list \<Rightarrow> nat \<times> string option \<Rightarrow> nat \<times> string option" where
  "count_players [] cw = cw"
| "count_players ((k, player_obj) # rest) (counter, winner) =
     (if account_balance player_obj = 0
      then count_players rest (counter + 1, winner)
      else count_players rest (counter, Some (player_name player_obj)))"

definition check_game_over :: "RealEstateGame \<Rightarrow> string option" where
  "check_game_over g =
     (case count_players (players g) (0, None) of
        (counter, winner) \<Rightarrow> if counter = 1 then winner else Some [])"

subsection \<open>Runs of the public operations\<close>

datatype operation =
    CreatePlayer string int
  | BuySpace string
  | MovePlayer string int

fun perform :: "RealEstateGame \<Rightarrow> operation \<Rightarrow> error + RealEstateGame" where
  "perform g (CreatePlayer pname bal) = Inr (snd (create_player g pname bal))"
| "perform g (BuySpace pname) =
     (case buy_space g pname of Inl e \<Rightarrow> Inl e | Inr (ok, g') \<Rightarrow> Inr g')"
| "perform g (MovePlayer pname n) = move_player g pname n"

fun run :: "RealEstateGame \<Rightarrow> operation list \<Rightarrow> error + RealEstateGame" where
  "run g [] = Inr g"
| "run g (a # rest) = (case perform g a of Inl e \<Rightarrow> Inl e | Inr g' \<Rightarrow> run g' rest)"

subsection \<open>Observations and example games\<close>

definition and_then :: "error + 'a \<Rightarrow> ('a \<Rightarrow> error + 'b) \<Rightarrow> error + 'b" where
  "and_then r f = (case r of Inl e \<Rightarrow> Inl e | Inr x \<Rightarrow> f x)"

text \<open>\<^verbatim>\<open>self._game_board[i][i].get_game_space_owner()\<close>\<close>

definition get_owner :: "RealEstateGame \<Rightarrow> int \<Rightarrow> error + string option" where
  "get_owner g i = (case get_space g i of Inl e \<Rightarrow> Inl e | Inr s \<Rightarrow> Inr (game_space_owner s))"

definition three_players :: RealEstateGame where
  "three_players =
     snd (create_player (snd (create_player (snd (create_player new_game ''A'' 100)) ''B'' 100)) ''C'' 0)"

definition cheap_go_board :: RealEstateGame where
  "cheap_go_board = create_spaces new_game 1 (replicate 24 50)"

definition own_space_ops :: "operation list" where
  "own_space_ops = [CreatePlayer ''A'' 251, MovePlayer ''A'' 1, BuySpace ''A'']"

definition result_game :: "error + RealEstateGame \<Rightarrow> RealEstateGame" where
  "result_game r = (case r of Inl e \<Rightarrow> new_game | Inr g \<Rightarrow> g)"

text \<open>Player A on space 1, about to buy it; then A as its owner.\<close>

definition about_to_buy :: RealEstateGame where
  "about_to_buy = result_game (run cheap_go_board [CreatePlayer ''A'' 251, MovePlayer ''A'' 1])"

definition own_space :: RealEstateGame where
  "own_space = result_game (run cheap_go_board own_space_ops)"

text \<open>Player A back on their own space 1, after \<^verbatim>\<open>movement\<close> and before \<^verbatim>\<open>pay_rent\<close>.\<close>

definition own_landing :: RealEstateGame where
  "own_landing = result_game (and_then (run cheap_go_board own_space_ops) (\<lambda>g. movement g ''A'' 25))"

text \<open>Players B (balance 30) and C (balance 100) on A's space 1 of rent 50, before \<^verbatim>\<open>pay_rent\<close>.\<close>

definition rent_due :: RealEstateGame where
  "rent_due =
     result_game
       (and_then (run cheap_go_board (own_space_ops @ [CreatePlayer ''B'' 30, CreatePlayer ''C'' 100]))
          (\<lambda>g. and_then (movement g ''B'' 1) (\<lambda>g'. movement g' ''C'' 1)))"

text \<open>
  A name in a list of owned spaces that \<^verbatim>\<open>self._game_board[name][name]\<close> finds: the
  loop of \<^verbatim>\<open>lose_game\<close> raises on any other.
\<close>

definition on_board :: "RealEstateGame \<Rightarrow> space_name \<Rightarrow> bool" where
  "on_board g nm =
     (case nm of GO \<Rightarrow> False
      | Number i \<Rightarrow> (case get_space g i of Inl e \<Rightarrow> False | Inr s \<Rightarrow> True))"

subsection \<open>Games played from a new board\<close>

text \<open>
  The set-up the game is meant for: a positive amount for GO and 24 positive rents.
  A player joins with a balance that is not negative. \<open>play\<close> builds the board on a new
  game and runs the operations.
\<close>

definition valid_setup :: "int \<Rightarrow> int list \<Rightarrow> bool" where
  "valid_setup go_money rent_list \<longleftrightarrow>
     0 < go_money \<and> length rent_list = 24 \<and> list_all (\<lambda>r. 0 < r) rent_list"

fun valid_operation :: "operation \<Rightarrow> bool" where
  "valid_operation (CreatePlayer pname bal) = (0 \<le> bal)"
| "valid_operation (BuySpace pname) = True"
| "valid_operation (MovePlayer pname n) = True"

definition play :: "int \<Rightarrow> int list \<Rightarrow> operation list \<Rightarrow> error + RealEstateGame" where
  "play go_money rent_list ops = run (create_spaces new_game go_money rent_list) ops"

text \<open>Player B pays the rent of A's space 1 with all they have; the game goes on.\<close>

definition rent_ops :: "operation list" where
  "rent_ops = own_space_ops @ [CreatePlayer ''B'' 30, MovePlayer ''B'' 1]"

definition after_rent :: RealEstateGame where
  "after_rent = result_game (play 1 (replicate 24 50) rent_ops)"

definition later_ops :: "operation list" where
  "later_ops = [MovePlayer ''B'' 3, BuySpace ''B'', CreatePlayer ''C'' 100, MovePlayer ''C'' 1]"

definition after_later :: RealEstateGame where
  "after_later = result_game (run after_rent later_ops)"

subsection \<open>Invariants of a game\<close>

text \<open>
  The board has its 25 spaces, each under its own index, with a positive rent, a price of
  five rents and its name: GO for space 0, the index for the others.
\<close>

definition board_ok :: "RealEstateGame \<Rightarrow> bool" where
  "board_ok g \<longleftrightarrow>
     length (game_board g) = 25 \<and>
     (\<forall>i. 0 \<le> i \<and> i < 25 \<longrightarrow>
        (\<exists>s. get_space g i = Inr s \<and> 0 < rent s \<and> purchase_price s = rent s * 5
           \<and> game_space_name s = (if i = 0 then GO else Number i)))"

text \<open>No balance is negative; every player stands on the board.\<close>

definition bal_ok :: "RealEstateGame \<Rightarrow> bool" where
  "bal_ok g \<longleftrightarrow> (\<forall>n p. get_player g n = Inr p \<longrightarrow> 0 \<le> account_balance p)"

definition loc_ok :: "RealEstateGame \<Rightarrow> bool" where
  "loc_ok g \<longleftrightarrow> (\<forall>n p. get_player g n = Inr p \<longrightarrow> 0 \<le> get_location p \<and> get_location p < 25)"

text \<open>
  A player's list of owned spaces has no duplicates and names spaces whose owner is the
  player; the owner of a space is a registered player who has the space in their list,
  and whose balance is positive.
\<close>

definition lists_ok :: "RealEstateGame \<Rightarrow> bool" where
  "lists_ok g \<longleftrightarrow>
     (\<forall>n p. get_player g n = Inr p \<longrightarrow>
        distinct (owned_game_spaces p) \<and>
        (\<forall>nm\<in>set (owned_game_spaces p).
           \<exists>i s. nm = Number i \<and> get_space g i = Inr s \<and> game_space_name s = nm
             \<and> game_space_owner s = Some n))"

definition owners_ok :: "RealEstateGame \<Rightarrow> bool" where
  "owners_ok g \<longleftrightarrow>
     (\<forall>i s owner. get_space g i = Inr s \<and> game_space_owner s = Some owner \<longrightarrow>
        (\<exists>p. get_player g owner = Inr p \<and> Number i \<in> set (owned_game_spaces p)))"

definition active_ok :: "RealEstateGame \<Rightarrow> bool" where
  "active_ok g \<longleftrightarrow>
     (\<forall>i s owner p. get_space g i = Inr s \<and> game_space_owner s = Some owner
        \<and> get_player g owner = Inr p \<longrightarrow> 0 < account_balance p)"

definition game_ok :: "RealEstateGame \<Rightarrow> bool" where
  "game_ok g \<longleftrightarrow> board_ok g \<and> bal_ok g \<and> loc_ok g \<and> lists_ok g \<and> owners_ok g \<and> active_ok g"

text \<open>
  What holds between \<^verbatim>\<open>movement\<close> and \<^verbatim>\<open>pay_rent\<close>, and inside \<^verbatim>\<open>pay_rent\<close>: the
  player who moves may stand off the board, and may own spaces with balance 0 until
  \<^verbatim>\<open>lose_game\<close> has run.
\<close>

definition active_but :: "string \<Rightarrow> RealEstateGame \<Rightarrow> bool" where
  "active_but x g \<longleftrightarrow>
     (\<forall>i s owner p. get_space g i = Inr s \<and> game_space_owner s = Some owner \<and> owner \<noteq> x
        \<and> get_player g owner = Inr p \<longrightarrow> 0 < account_balance p)"

definition loc_but :: "string \<Rightarrow> RealEstateGame \<Rightarrow> bool" where
  "loc_but x g \<longleftrightarrow>
     (\<forall>n p. n \<noteq> x \<and> get_player g n = Inr p \<longrightarrow> 0 \<le> get_location p \<and> get_location p < 25)"

definition mid_ok :: "string \<Rightarrow> RealEstateGame \<Rightarrow> bool" where
  "mid_ok x g \<longleftrightarrow> board_ok g \<and> bal_ok g \<and> loc_but x g \<and> lists_ok g \<and> owners_ok g \<and> active_ok g"

text \<open>The part of the invariant that needs nothing of the amounts.\<close>

definition names_ok :: "RealEstateGame \<Rightarrow> bool" where
  "names_ok g \<longleftrightarrow>
     (\<forall>i s. get_space g i = Inr s \<longrightarrow> game_space_name s = (if i = 0 then GO else Number i))"

definition hold_ok :: "RealEstateGame \<Rightarrow> bool" where
  "hold_ok g \<longleftrightarrow> names_ok g \<and> lists_ok g \<and> owners_ok g"

section \<open>The store of players and spaces\<close>

lemma get_player_Inr: "get_player g n = Inr p \<longleftrightarrow> map_of (players g) n = Some p"
  by (simp add: get_player_def split: option.splits)

lemma get_player_Inl: "get_player g n = Inl e \<longleftrightarrow> map_of (players g) n = None \<and> e = KeyError"
  by (auto simp add: get_player_def split: option.splits)

lemma get_player_upd_player:
  "get_player (upd_player n f g) m =
     (if m = n then (case get_player g n of Inl e \<Rightarrow> Inl e | Inr p \<Rightarrow> Inr (f p)) else get_player g m)"
  by (simp add: get_player_def upd_player_def map_of_map_entry split: option.splits)

lemma game_board_upd_player [simp]: "game_board (upd_player n f g) = game_board g"
  by (simp add: upd_player_def)

lemma get_space_upd_player [simp]: "get_space (upd_player n f g) i = get_space g i"
  by (simp add: get_space_def cong: sum.case_cong)

lemma keys_upd_player [simp]: "map fst (players (upd_player n f g)) = map fst (players g)"
proof -
  have "map fst (AList.map_entry n f xs) = map fst xs" for xs :: "(string \<times> Player) list"
    by (induction xs) auto
  then show ?thesis by (simp add: upd_player_def)
qed

lemma players_upd_space [simp]: "players (upd_space i f g) = players g"
  by (simp add: upd_space_def split: sum.splits)

lemma get_player_upd_space [simp]: "get_player (upd_space i f g) n = get_player g n"
  by (simp add: get_player_def)

lemma length_board_upd_space [simp]: "length (game_board (upd_space i f g)) = length (game_board g)"
  by (simp add: upd_space_def split: sum.splits)

lemma list_index_upd_space [simp]:
  "list_index (game_board (upd_space i f g)) j = list_index (game_board g) j"
  by (simp add: list_index_def)

lemma list_index_list_update [simp]: "list_index (xs[k := v]) i = list_index xs i"
  by (simp add: list_index_def)

lemma list_index_bound: "list_index xs i = Inr j \<Longrightarrow> j < length xs"
  by (auto simp add: list_index_def Let_def split: if_splits)

lemma get_space_upd_space:
  assumes "get_space g i = Inr s"
  shows "get_space (upd_space i f g) j = (if j = i then Inr (f s) else get_space g j)"
proof -
  from assms obtain li where li: "list_index (game_board g) i = Inr li"
    and at: "game_board g ! li = (i, s)"
    by (auto simp add: get_space_def split: sum.splits prod.splits if_splits)
  have bound: "li < length (game_board g)" using li by (rule list_index_bound)
  have upd: "game_board (upd_space i f g) = (game_board g)[li := (i, f s)]"
    using li at by (simp add: upd_space_def)
  show ?thesis
  proof (cases "j = i")
    case True
    then show ?thesis using li at bound
      by (simp add: get_space_def upd cong: sum.case_cong)
  next
    case False
    show ?thesis
    proof (cases "list_index (game_board g) j")
      case (Inl e)
      then show ?thesis using False by (simp add: get_space_def)
    next
      case (Inr lj)
      then have "lj < length (game_board g)" by (rule list_index_bound)
      then show ?thesis using False Inr at bound
        by (cases "lj = li") (auto simp add: get_space_def upd nth_list_update split: prod.splits cong: sum.case_cong)
    qed
  qed
qed

lemma get_owner_upd_player [simp]: "get_owner (upd_player n f g) i = get_owner g i"
  by (simp add: get_owner_def)

lemma on_board_Number: "on_board g (Number i) \<longleftrightarrow> (\<exists>s. get_space g i = Inr s)"
  by (simp add: on_board_def split: sum.splits)

lemma on_board_GO [simp]: "\<not> on_board g GO"
  by (simp add: on_board_def)

lemma on_board_upd_player [simp]: "on_board (upd_player n f g) nm = on_board g nm"
  by (cases nm) (simp_all add: on_board_def)

lemma on_board_upd_space:
  "get_space g i = Inr s \<Longrightarrow> on_board (upd_space i f g) nm = on_board g nm"
  by (cases nm) (simp_all add: on_board_def get_space_upd_space)

lemma remove_owners_spec:
  assumes "\<forall>nm\<in>set ns. on_board g nm"
  shows "\<exists>g'. remove_owners ns g = Inr g' \<and> players g' = players g
           \<and> length (game_board g') = length (game_board g)
           \<and> (\<forall>i. get_space g' i =
                 (if Number i \<in> set ns
                  then (case get_space g i of Inl e \<Rightarrow> Inl e
                        | Inr s \<Rightarrow> Inr (remove_game_space_owner s))
                  else get_space g i))"
  using assms
proof (induction ns arbitrary: g)
  case Nil
  then show ?case by simp
next
  case (Cons nm ns)
  from Cons.prems have "on_board g nm" by simp
  then obtain i s where nm: "nm = Number i" and s: "get_space g i = Inr s"
    by (cases nm) (auto simp add: on_board_Number)
  define g1 where "g1 = upd_space i remove_game_space_owner g"
  have "\<forall>nm\<in>set ns. on_board g1 nm"
    using Cons.prems s by (simp add: g1_def on_board_upd_space)
  from Cons.IH [OF this] obtain g' where
    r: "remove_owners ns g1 = Inr g'" and p: "players g' = players g1"
    and l: "length (game_board g') = length (game_board g1)"
    and sp: "\<And>j. get_space g' j =
                 (if Number j \<in> set ns
                  then (case get_space g1 j of Inl e \<Rightarrow> Inl e
                        | Inr s \<Rightarrow> Inr (remove_game_space_owner s))
                  else get_space g1 j)"
    by blast
  have g1: "get_space g1 j = (if j = i then Inr (remove_game_space_owner s) else get_space g j)" for j
    unfolding g1_def by (rule get_space_upd_space [OF s])
  have "remove_owners (nm # ns) g = Inr g'"
    using nm s r by (simp add: g1_def)
  moreover have "players g' = players g"
    using p by (simp add: g1_def)
  moreover have "length (game_board g') = length (game_board g)"
    using l by (simp add: g1_def)
  moreover have "get_space g' j =
                 (if Number j \<in> set (nm # ns)
                  then (case get_space g j of Inl e \<Rightarrow> Inl e
                        | Inr s \<Rightarrow> Inr (remove_game_space_owner s))
                  else get_space g j)" for j
    using s by (simp add: sp g1 nm remove_game_space_owner_def)
  ultimately show ?case by blast
qed

lemma pay_rent_min:
  assumes reg: "get_player g pname = Inr p"
      and cur: "get_space g (get_location p) = Inr s"
      and own: "game_space_owner s = Some owner"
      and notgo: "owner \<noteq> ''GO''"
      and oreg: "get_player g owner = Inr q"
  shows "pay_rent g pname =
           (let amount = min (rent s) (account_balance p);
                g1 = upd_player owner (deposit amount) (upd_player pname (withdraw amount) g)
            in if rent s < account_balance p then Inr g1 else lose_game g1 pname)"
  using assms by (simp add: pay_rent_def Let_def min_def)

lemma lose_game_result:
  assumes reg: "get_player g pname = Inr p"
      and valid: "list_all (on_board g) (owned_game_spaces p)"
  shows "\<exists>g'. lose_game g pname = Inr g'
           \<and> (\<forall>i s. get_space g i = Inr s \<longrightarrow>
                 get_space g' i = Inr (if Number i \<in> set (owned_game_spaces p)
                                       then s\<lparr>game_space_owner := None\<rparr> else s))
           \<and> get_player g' pname = Inr (p\<lparr>owned_game_spaces := []\<rparr>)
           \<and> (\<forall>m. m \<noteq> pname \<longrightarrow> get_player g' m = get_player g m)
           \<and> map fst (players g') = map fst (players g)"
proof -
  from valid have "\<forall>nm\<in>set (owned_game_spaces p). on_board g nm"
    by (simp add: list_all_iff)
  from remove_owners_spec [OF this] obtain g1 where
    r: "remove_owners (owned_game_spaces p) g = Inr g1" and p: "players g1 = players g"
    and sp: "\<And>j. get_space g1 j =
                 (if Number j \<in> set (owned_game_spaces p)
                  then (case get_space g j of Inl e \<Rightarrow> Inl e
                        | Inr s \<Rightarrow> Inr (remove_game_space_owner s))
                  else get_space g j)"
    by blast
  define g' where "g' = upd_player pname clear_owned_game_spaces g1"
  have res: "lose_game g pname = Inr g'"
    using reg r by (simp add: lose_game_def g'_def)
  have same: "get_player g1 m = get_player g m" for m
    by (simp add: get_player_def p)
  have "\<forall>i s. get_space g i = Inr s \<longrightarrow>
          get_space g' i = Inr (if Number i \<in> set (owned_game_spaces p)
                                then s\<lparr>game_space_owner := None\<rparr> else s)"
    by (simp add: g'_def sp remove_game_space_owner_def)
  moreover have "get_player g' pname = Inr (p\<lparr>owned_game_spaces := []\<rparr>)"
    using reg by (simp add: g'_def get_player_upd_player same clear_owned_game_spaces_def)
  moreover have "\<forall>m. m \<noteq> pname \<longrightarrow> get_player g' m = get_player g m"
    by (simp add: g'_def get_player_upd_player same)
  moreover have "map fst (players g') = map fst (players g)"
    by (simp add: g'_def p)
  ultimately show ?thesis using res by blast
qed

section \<open>The invariant is kept\<close>

subsection \<open>Changing one player\<close>

lemma get_player_upd_playerE:
  assumes "get_player (upd_player n f g) m = Inr p'"
  obtains p where "get_player g m = Inr p" "p' = (if m = n then f p else p)"
  using assms by (auto simp add: get_player_upd_player split: if_splits sum.splits)

lemma get_player_upd_playerI:
  "get_player g m = Inr p \<Longrightarrow> get_player (upd_player n f g) m = Inr (if m = n then f p else p)"
  by (auto simp add: get_player_upd_player)

lemma board_ok_upd_player [simp]: "board_ok (upd_player n f g) = board_ok g"
  by (simp add: board_ok_def)

lemma board_ok_range:
  assumes "board_ok g" and "get_space g i = Inr s"
  shows "0 \<le> i \<and> i < 25"
proof (rule ccontr)
  assume out: "\<not> (0 \<le> i \<and> i < 25)"
  from assms(1) have len: "length (game_board g) = 25"
    by (simp add: board_ok_def)
  from assms(2) obtain j where j: "list_index (game_board g) i = Inr j"
    and key: "fst (game_board g ! j) = i"
    by (auto simp add: get_space_def split: sum.splits prod.splits if_splits)
  from j out len have neg: "i < 0" and ji: "int j = 25 + i" and j0: "0 \<le> 25 + i"
    by (auto simp add: list_index_def Let_def split: if_splits)
  from assms(1) j0 neg obtain s' where "get_space g (25 + i) = Inr s'"
    by (auto simp add: board_ok_def)
  then have "fst (game_board g ! nat (25 + i)) = 25 + i"
    using len j0 neg
    by (auto simp add: get_space_def list_index_def Let_def split: sum.splits prod.splits if_splits)
  moreover from ji have "nat (25 + i) = j" by simp
  ultimately show False using key by simp
qed

lemma board_okD:
  assumes "board_ok g" and "get_space g i = Inr s"
  shows "0 < rent s" and "purchase_price s = rent s * 5"
    and "game_space_name s = (if i = 0 then GO else Number i)"
  using assms board_ok_range [OF assms] by (auto simp add: board_ok_def)

lemma board_ok_upd_space:
  assumes ok: "board_ok g" and s: "get_space g i = Inr s"
      and f: "rent (f s) = rent s" "purchase_price (f s) = purchase_price s"
             "game_space_name (f s) = game_space_name s"
  shows "board_ok (upd_space i f g)"
  using ok f unfolding board_ok_def get_space_upd_space [OF s]
  using s by auto

lemma lists_ok_upd_player:
  assumes ok: "lists_ok g" and f: "\<And>p. owned_game_spaces (f p) = owned_game_spaces p"
  shows "lists_ok (upd_player n f g)"
  unfolding lists_ok_def
proof (intro allI impI)
  fix m p' assume "get_player (upd_player n f g) m = Inr p'"
  then obtain p where "get_player g m = Inr p" "owned_game_spaces p' = owned_game_spaces p"
    using f by (auto elim!: get_player_upd_playerE split: if_splits)
  with ok show "distinct (owned_game_spaces p') \<and>
        (\<forall>nm\<in>set (owned_game_spaces p').
           \<exists>i s. nm = Number i \<and> get_space (upd_player n f g) i = Inr s \<and> game_space_name s = nm
             \<and> game_space_owner s = Some m)"
    by (simp add: lists_ok_def)
qed

lemma owners_ok_upd_player:
  assumes ok: "owners_ok g" and f: "\<And>p. owned_game_spaces (f p) = owned_game_spaces p"
  shows "owners_ok (upd_player n f g)"
  unfolding owners_ok_def
proof (intro allI impI)
  fix i s owner
  assume "get_space (upd_player n f g) i = Inr s \<and> game_space_owner s = Some owner"
  then have "get_space g i = Inr s \<and> game_space_owner s = Some owner"
    by simp
  with ok obtain p where p: "get_player g owner = Inr p" "Number i \<in> set (owned_game_spaces p)"
    unfolding owners_ok_def by blast
  from get_player_upd_playerI [OF p(1), of n f] p(2) f
  show "\<exists>p. get_player (upd_player n f g) owner = Inr p \<and> Number i \<in> set (owned_game_spaces p)"
    by auto
qed

lemma loc_ok_upd_player:
  assumes ok: "loc_ok g" and f: "\<And>p. current_location (f p) = current_location p"
  shows "loc_ok (upd_player n f g)"
  unfolding loc_ok_def
proof (intro allI impI)
  fix m p' assume "get_player (upd_player n f g) m = Inr p'"
  then obtain p where "get_player g m = Inr p" "get_location p' = get_location p"
    using f by (auto elim!: get_player_upd_playerE simp add: get_location_def split: if_splits)
  with ok show "0 \<le> get_location p' \<and> get_location p' < 25"
    by (simp add: loc_ok_def)
qed

lemma bal_ok_upd_player:
  assumes ok: "bal_ok g" and f: "\<And>p. get_player g n = Inr p \<Longrightarrow> 0 \<le> account_balance (f p)"
  shows "bal_ok (upd_player n f g)"
  unfolding bal_ok_def
proof (intro allI impI)
  fix m p' assume "get_player (upd_player n f g) m = Inr p'"
  then obtain p where p: "get_player g m = Inr p" "p' = (if m = n then f p else p)"
    by (rule get_player_upd_playerE)
  with ok f show "0 \<le> account_balance p'"
    by (auto simp add: bal_ok_def)
qed

lemma active_ok_imp_but: "active_ok g \<Longrightarrow> active_but x g"
  unfolding active_ok_def active_but_def by blast

lemma active_ok_upd_player:
  assumes ok: "active_ok g"
      and f: "\<And>p. get_player g n = Inr p \<Longrightarrow> 0 < account_balance p \<Longrightarrow> 0 < account_balance (f p)"
  shows "active_ok (upd_player n f g)"
  unfolding active_ok_def
proof (intro allI impI)
  fix i s owner p'
  assume a: "get_space (upd_player n f g) i = Inr s \<and> game_space_owner s = Some owner
        \<and> get_player (upd_player n f g) owner = Inr p'"
  then obtain p where p: "get_player g owner = Inr p" "p' = (if owner = n then f p else p)"
    by (auto elim: get_player_upd_playerE)
  from a p ok have "0 < account_balance p"
    unfolding active_ok_def by auto
  with p f show "0 < account_balance p'"
    by auto
qed

lemma active_but_upd_player:
  assumes ok: "active_but x g"
      and f: "\<And>p. n \<noteq> x \<Longrightarrow> get_player g n = Inr p \<Longrightarrow> 0 < account_balance p
                \<Longrightarrow> 0 < account_balance (f p)"
  shows "active_but x (upd_player n f g)"
  unfolding active_but_def
proof (intro allI impI)
  fix i s owner p'
  assume a: "get_space (upd_player n f g) i = Inr s \<and> game_space_owner s = Some owner
        \<and> owner \<noteq> x \<and> get_player (upd_player n f g) owner = Inr p'"
  then obtain p where p: "get_player g owner = Inr p" "p' = (if owner = n then f p else p)"
    by (auto elim: get_player_upd_playerE)
  from a p ok have "0 < account_balance p"
    unfolding active_but_def by auto
  with p f a show "0 < account_balance p'"
    by auto
qed

lemma loc_ok_imp_but: "loc_ok g \<Longrightarrow> loc_but x (upd_player x f g)"
  unfolding loc_ok_def loc_but_def
  by (auto elim!: get_player_upd_playerE)

lemma loc_but_upd_player:
  assumes ok: "loc_but x g" and f: "\<And>p. current_location (f p) = current_location p"
  shows "loc_but x (upd_player n f g)"
  unfolding loc_but_def
proof (intro allI impI)
  fix m p' assume a: "m \<noteq> x \<and> get_player (upd_player n f g) m = Inr p'"
  then obtain p where "get_player g m = Inr p" "get_location p' = get_location p"
    using f by (auto elim!: get_player_upd_playerE simp add: get_location_def split: if_splits)
  with ok a show "0 \<le> get_location p' \<and> get_location p' < 25"
    unfolding loc_but_def by auto
qed

lemma loc_but_imp_ok:
  assumes "loc_but x g" and "get_player g x = Inr p"
      and "0 \<le> get_location p \<and> get_location p < 25"
  shows "loc_ok g"
  unfolding loc_ok_def
proof (intro allI impI)
  fix n q assume "get_player g n = Inr q"
  with assms show "0 \<le> get_location q \<and> get_location q < 25"
    by (cases "n = x") (auto simp add: loc_but_def)
qed

subsection \<open>The new board\<close>

lemma game_board_create_spaces:
  "game_board (create_spaces new_game go_money rent_list) =
     (0, GameSpace_init GO go_money) #
       map (\<lambda>(num, r). (num, GameSpace_init (Number num) r)) (zip [1..24] rent_list)"
  by (simp add: create_spaces_def new_game_def)

lemma get_space_create_spaces:
  assumes len: "length rent_list = 24" and i: "0 \<le> i" "i < 25"
  shows "get_space (create_spaces new_game go_money rent_list) i =
           Inr (GameSpace_init (if i = 0 then GO else Number i)
                  (if i = 0 then go_money else rent_list ! nat (i - 1)))"
proof -
  let ?b = "game_board (create_spaces new_game go_money rent_list)"
  have l: "length ?b = 25"
    using len by (simp add: game_board_create_spaces)
  then have idx: "list_index ?b i = Inr (nat i)"
    using i by (simp add: list_index_def)
  show ?thesis
  proof (cases "i = 0")
    case True
    then show ?thesis using idx
      by (simp add: get_space_def game_board_create_spaces)
  next
    case False
    with i obtain k where k: "nat i = Suc k" "k < 24" "int k = i - 1"
      by (cases "nat i") auto
    then have "[1..24] ! k = i"
      by (simp add: nth_upto)
    with k len have "?b ! nat i = (i, GameSpace_init (Number i) (rent_list ! k))"
      by (simp add: game_board_create_spaces)
    moreover from k have "nat (i - 1) = k" by simp
    ultimately show ?thesis using idx False
      by (simp add: get_space_def)
  qed
qed

lemma create_spaces_ok:
  assumes "valid_setup go_money rent_list"
  shows "game_ok (create_spaces new_game go_money rent_list)"
proof -
  let ?g = "create_spaces new_game go_money rent_list"
  from assms have go: "0 < go_money" and len: "length rent_list = 24"
    and pos: "\<And>k. k < 24 \<Longrightarrow> 0 < rent_list ! k"
    by (auto simp add: valid_setup_def list_all_length)
  have sp: "get_space ?g i =
           Inr (GameSpace_init (if i = 0 then GO else Number i)
                  (if i = 0 then go_money else rent_list ! nat (i - 1)))"
    if "0 \<le> i" "i < 25" for i :: int
    using that by (rule get_space_create_spaces [OF len])
  have b: "board_ok ?g"
    unfolding board_ok_def
  proof (intro conjI allI impI)
    show "length (game_board ?g) = 25"
      using len by (simp add: game_board_create_spaces)
  next
    fix i :: int assume i: "0 \<le> i \<and> i < 25"
    then have "i \<noteq> 0 \<Longrightarrow> 0 < rent_list ! nat (i - 1)"
      by (intro pos) auto
    with i go show "\<exists>s. get_space ?g i = Inr s \<and> 0 < rent s \<and> purchase_price s = rent s * 5
           \<and> game_space_name s = (if i = 0 then GO else Number i)"
      by (auto simp add: sp GameSpace_init_def)
  qed
  have none: "game_space_owner s = None" if "get_space ?g i = Inr s" for i :: int and s
    using board_ok_range [OF b that] that by (auto simp add: sp GameSpace_init_def)
  have nobody: "get_player ?g n = Inl KeyError" for n
    by (simp add: get_player_def create_spaces_def new_game_def)
  show ?thesis
    unfolding game_ok_def bal_ok_def loc_ok_def lists_ok_def owners_ok_def active_ok_def
    using b none by (auto simp add: nobody)
qed

subsection \<open>A new player\<close>

lemma create_player_fresh:
  assumes "get_player g pname = Inl e"
  shows "get_player (snd (create_player g pname bal)) m =
           (if m = pname then Inr (Player_init pname bal) else get_player g m)"
    and "game_board (snd (create_player g pname bal)) = game_board g"
proof -
  from assms have "map_of (players g) pname = None"
    by (simp add: get_player_def split: option.splits)
  then have "pname \<notin> fst ` set (players g)"
    by (simp add: map_of_eq_None_iff)
  then show "get_player (snd (create_player g pname bal)) m =
           (if m = pname then Inr (Player_init pname bal) else get_player g m)"
    and "game_board (snd (create_player g pname bal)) = game_board g"
    by (simp_all add: create_player_def get_player_def update_conv')
qed

lemma create_player_ok:
  assumes ok: "game_ok g" and bal: "0 \<le> bal"
  shows "game_ok (snd (create_player g pname bal))"
proof (cases "get_player g pname")
  case (Inr p)
  then show ?thesis using ok
    by (simp add: create_player_def get_player_Inr) (metis domI dom_map_of_conv_image_fst ok)
next
  case (Inl e)
  let ?g = "snd (create_player g pname bal)"
  note pl = create_player_fresh(1) [OF Inl, of bal]
  have "game_board ?g = game_board g" by (rule create_player_fresh(2) [OF Inl])
  then have sp: "get_space ?g i = get_space g i" for i
    by (simp add: get_space_def cong: sum.case_cong)
  from ok have "board_ok ?g"
    by (simp add: game_ok_def board_ok_def sp \<open>game_board ?g = game_board g\<close>)
  moreover from ok bal have "bal_ok ?g"
    by (auto simp add: game_ok_def bal_ok_def pl Player_init_def split: if_splits)
  moreover from ok have "loc_ok ?g"
    by (auto simp add: game_ok_def loc_ok_def pl Player_init_def get_location_def split: if_splits)
  moreover from ok have "lists_ok ?g"
    by (auto simp add: game_ok_def lists_ok_def pl sp Player_init_def split: if_splits)
  moreover have "owners_ok ?g"
    unfolding owners_ok_def
  proof (intro allI impI)
    fix i s owner
    assume "get_space ?g i = Inr s \<and> game_space_owner s = Some owner"
    with ok obtain p where p: "get_player g owner = Inr p" "Number i \<in> set (owned_game_spaces p)"
      unfolding game_ok_def owners_ok_def sp by blast
    with Inl have "owner \<noteq> pname" by auto
    with p show "\<exists>p. get_player ?g owner = Inr p \<and> Number i \<in> set (owned_game_spaces p)"
      by (simp add: pl)
  qed
  moreover have "active_ok ?g"
    unfolding active_ok_def
  proof (intro allI impI)
    fix i s owner p
    assume a: "get_space ?g i = Inr s \<and> game_space_owner s = Some owner
        \<and> get_player ?g owner = Inr p"
    with ok obtain q where q: "get_player g owner = Inr q"
      unfolding game_ok_def owners_ok_def sp by blast
    with Inl have "owner \<noteq> pname" by auto
    with a q ok show "0 < account_balance p"
      unfolding game_ok_def active_ok_def sp by (auto simp add: pl)
  qed
  ultimately show ?thesis by (simp add: game_ok_def)
qed

subsection \<open>Losing, paying rent, moving, buying\<close>

lemma lose_game_view:
  assumes reg: "get_player g pname = Inr p"
      and valid: "\<forall>nm\<in>set (owned_game_spaces p). on_board g nm"
  shows "\<exists>g'. lose_game g pname = Inr g'
           \<and> (\<forall>i. get_space g' i =
                 (if Number i \<in> set (owned_game_spaces p)
                  then (case get_space g i of Inl e \<Rightarrow> Inl e
                        | Inr s \<Rightarrow> Inr (remove_game_space_owner s))
                  else get_space g i))
           \<and> (\<forall>m. get_player g' m =
                 (if m = pname then Inr (p\<lparr>owned_game_spaces := []\<rparr>) else get_player g m))
           \<and> length (game_board g') = length (game_board g)"
proof -
  from remove_owners_spec [OF valid] obtain g1 where
    r: "remove_owners (owned_game_spaces p) g = Inr g1" and p: "players g1 = players g"
    and l: "length (game_board g1) = length (game_board g)"
    and sp: "\<And>j. get_space g1 j =
                 (if Number j \<in> set (owned_game_spaces p)
                  then (case get_space g j of Inl e \<Rightarrow> Inl e
                        | Inr s \<Rightarrow> Inr (remove_game_space_owner s))
                  else get_space g j)"
    by blast
  define g' where "g' = upd_player pname clear_owned_game_spaces g1"
  have res: "lose_game g pname = Inr g'"
    using reg r by (simp add: lose_game_def g'_def)
  have same: "get_player g1 m = get_player g m" for m
    by (simp add: get_player_def p)
  have "\<forall>i. get_space g' i =
                 (if Number i \<in> set (owned_game_spaces p)
                  then (case get_space g i of Inl e \<Rightarrow> Inl e
                        | Inr s \<Rightarrow> Inr (remove_game_space_owner s))
                  else get_space g i)"
    by (simp add: g'_def sp)
  moreover have "\<forall>m. get_player g' m =
                 (if m = pname then Inr (p\<lparr>owned_game_spaces := []\<rparr>) else get_player g m)"
    using reg by (simp add: g'_def get_player_upd_player same clear_owned_game_spaces_def)
  moreover have "length (game_board g') = length (game_board g)"
    by (simp add: g'_def l)
  ultimately show ?thesis using res by blast
qed

lemma lists_ok_on_board:
  assumes "lists_ok g" and "get_player g n = Inr p"
  shows "\<forall>nm\<in>set (owned_game_spaces p). on_board g nm"
  using assms unfolding lists_ok_def by (fastforce simp add: on_board_Number)

lemma lose_game_ok:
  assumes b: "board_ok g" and bal: "bal_ok g" and loc: "loc_ok g" and li: "lists_ok g"
      and ow: "owners_ok g" and act: "active_but pname g"
      and res: "lose_game g pname = Inr g'"
  shows "game_ok g'"
proof -
  from res obtain p where reg: "get_player g pname = Inr p"
    by (auto simp add: lose_game_def split: sum.splits)
  from lose_game_view [OF reg lists_ok_on_board [OF li reg]] res
  have sp: "\<And>i. get_space g' i =
                 (if Number i \<in> set (owned_game_spaces p)
                  then (case get_space g i of Inl e \<Rightarrow> Inl e
                        | Inr s \<Rightarrow> Inr (remove_game_space_owner s))
                  else get_space g i)"
    and pl: "\<And>m. get_player g' m =
                 (if m = pname then Inr (p\<lparr>owned_game_spaces := []\<rparr>) else get_player g m)"
    and len: "length (game_board g') = length (game_board g)"
    by auto
  have mine: "Number i \<in> set (owned_game_spaces p) \<Longrightarrow> get_space g i = Inr s
      \<Longrightarrow> game_space_owner s = Some pname" for i s
    using li reg unfolding lists_ok_def by fastforce
  have kept: "get_space g i = Inr s \<and> Number i \<notin> set (owned_game_spaces p)"
    if "get_space g' i = Inr s" "game_space_owner s = Some owner" for i s owner
    using that by (auto simp add: sp remove_game_space_owner_def split: if_splits sum.splits)
  have "board_ok g'"
    unfolding board_ok_def
  proof (intro conjI allI impI)
    show "length (game_board g') = 25"
      using b len by (simp add: board_ok_def)
  next
    fix i :: int assume "0 \<le> i \<and> i < 25"
    with b obtain s where "get_space g i = Inr s" "0 < rent s" "purchase_price s = rent s * 5"
      "game_space_name s = (if i = 0 then GO else Number i)"
      unfolding board_ok_def by blast
    then show "\<exists>s. get_space g' i = Inr s \<and> 0 < rent s \<and> purchase_price s = rent s * 5
           \<and> game_space_name s = (if i = 0 then GO else Number i)"
      by (simp add: sp remove_game_space_owner_def)
  qed
  moreover from bal reg have "bal_ok g'"
    by (auto simp add: bal_ok_def pl split: if_splits)
  moreover from loc reg have "loc_ok g'"
    by (auto simp add: loc_ok_def pl get_location_def split: if_splits)
  moreover have "lists_ok g'"
    unfolding lists_ok_def
  proof (intro allI impI conjI ballI)
    fix m q assume q: "get_player g' m = Inr q"
    show "distinct (owned_game_spaces q)"
      using q li by (auto simp add: pl lists_ok_def split: if_splits)
    fix nm assume nm: "nm \<in> set (owned_game_spaces q)"
    with q have m: "m \<noteq> pname" and gq: "get_player g m = Inr q"
      by (auto simp add: pl split: if_splits)
    with li nm obtain i s where s: "nm = Number i" "get_space g i = Inr s"
      "game_space_name s = nm" "game_space_owner s = Some m"
      unfolding lists_ok_def by blast
    with mine m have "Number i \<notin> set (owned_game_spaces p)"
      by auto
    with s show "\<exists>i s. nm = Number i \<and> get_space g' i = Inr s \<and> game_space_name s = nm
             \<and> game_space_owner s = Some m"
      by (simp add: sp)
  qed
  moreover have "owners_ok g'"
    unfolding owners_ok_def
  proof (intro allI impI)
    fix i s owner
    assume a: "get_space g' i = Inr s \<and> game_space_owner s = Some owner"
    then have k: "get_space g i = Inr s" "Number i \<notin> set (owned_game_spaces p)"
      using kept by blast+
    with a ow obtain q where q: "get_player g owner = Inr q" "Number i \<in> set (owned_game_spaces q)"
      unfolding owners_ok_def by blast
    with k reg have "owner \<noteq> pname" by auto
    with q show "\<exists>p. get_player g' owner = Inr p \<and> Number i \<in> set (owned_game_spaces p)"
      by (simp add: pl)
  qed
  moreover have "active_ok g'"
    unfolding active_ok_def
  proof (intro allI impI)
    fix i s owner q
    assume a: "get_space g' i = Inr s \<and> game_space_owner s = Some owner
        \<and> get_player g' owner = Inr q"
    then have k: "get_space g i = Inr s" "Number i \<notin> set (owned_game_spaces p)"
      using kept by blast+
    with a ow obtain q' where q': "get_player g owner = Inr q'"
      "Number i \<in> set (owned_game_spaces q')"
      unfolding owners_ok_def by blast
    with k reg have ne: "owner \<noteq> pname" by auto
    with a have "get_player g owner = Inr q" by (simp add: pl)
    with act a k ne show "0 < account_balance q"
      unfolding active_but_def by blast
  qed
  ultimately show ?thesis by (simp add: game_ok_def)
qed

lemma owned_deposit [simp]: "owned_game_spaces (deposit a p) = owned_game_spaces p"
  and owned_withdraw [simp]: "owned_game_spaces (withdraw a p) = owned_game_spaces p"
  and owned_set_location [simp]: "owned_game_spaces (set_location nm p) = owned_game_spaces p"
  and location_deposit [simp]: "current_location (deposit a p) = current_location p"
  and location_withdraw [simp]: "current_location (withdraw a p) = current_location p"
  and balance_deposit [simp]: "account_balance (deposit a p) = account_balance p + a"
  and balance_withdraw [simp]: "account_balance (withdraw a p) = account_balance p - a"
  and balance_set_location [simp]: "account_balance (set_location nm p) = account_balance p"
  by (simp_all add: deposit_def withdraw_def set_location_def)

lemma pay_rent_ok:
  assumes b: "board_ok g" and bal: "bal_ok g" and loc: "loc_but pname g" and li: "lists_ok g"
      and ow: "owners_ok g" and act: "active_ok g"
      and reg: "get_player g pname = Inr p" and pos: "0 < account_balance p"
      and res: "pay_rent g pname = Inr g'"
  shows "game_ok g'"
proof -
  from res reg obtain s where s: "get_space g (get_location p) = Inr s"
    by (auto simp add: pay_rent_def split: sum.splits)
  from board_ok_range [OF b s] loc reg have loc': "loc_ok g"
    by (rule loc_but_imp_ok [rotated 2])
  have ok: "game_ok g"
    using b bal loc' li ow act by (simp add: game_ok_def)
  show ?thesis
  proof (cases "game_space_owner s")
    case None
    with res reg s ok show ?thesis by (simp add: pay_rent_def)
  next
    case (Some owner)
    show ?thesis
    proof (cases "owner = ''GO''")
      case True
      with res reg s Some ok show ?thesis by (simp add: pay_rent_def)
    next
      case False
      from ow s Some obtain q where q: "get_player g owner = Inr q"
        unfolding owners_ok_def by blast
      have r: "0 < rent s" by (rule board_okD(1) [OF b s])
      define a where "a = min (rent s) (account_balance p)"
      define g1 where "g1 = upd_player pname (withdraw a) g"
      define g2 where "g2 = upd_player owner (deposit a) g1"
      have a: "0 < a" "a \<le> account_balance p"
        using r pos by (simp_all add: a_def)
      from pay_rent_min [OF reg s Some False q]
      have step: "pay_rent g pname = (if rent s < account_balance p then Inr g2 else lose_game g2 pname)"
        by (simp add: Let_def a_def g1_def g2_def)
      have b2: "board_ok g2" using b by (simp add: g2_def g1_def)
      have li2: "lists_ok g2"
        unfolding g2_def g1_def by (intro lists_ok_upd_player li) simp_all
      have ow2: "owners_ok g2"
        unfolding g2_def g1_def by (intro owners_ok_upd_player ow) simp_all
      have loc2: "loc_ok g2"
        unfolding g2_def g1_def by (intro loc_ok_upd_player loc') simp_all
      have bal1: "bal_ok g1"
        unfolding g1_def using reg a by (intro bal_ok_upd_player bal) simp
      have bal2: "bal_ok g2"
        unfolding g2_def
      proof (rule bal_ok_upd_player [OF bal1])
        fix x assume "get_player g1 owner = Inr x"
        with bal1 have "0 \<le> account_balance x" by (auto simp add: bal_ok_def)
        with a show "0 \<le> account_balance (deposit a x)" by simp
      qed
      show ?thesis
      proof (cases "rent s < account_balance p")
        case True
        then have ar: "a < account_balance p" by (simp add: a_def)
        have "active_ok g1"
          unfolding g1_def using reg ar by (intro active_ok_upd_player act) simp
        then have "active_ok g2"
          unfolding g2_def using a by (intro active_ok_upd_player) simp_all
        moreover from True step res have "g' = g2" by simp
        ultimately show ?thesis
          using b2 li2 ow2 loc2 bal2 by (simp add: game_ok_def)
      next
        case False
        have "active_but pname g1"
          unfolding g1_def by (intro active_but_upd_player active_ok_imp_but act) simp
        then have "active_but pname g2"
          unfolding g2_def using a by (intro active_but_upd_player) simp_all
        moreover from False step res have "lose_game g2 pname = Inr g'" by simp
        ultimately show ?thesis
          using b2 li2 ow2 loc2 bal2 by (intro lose_game_ok)
      qed
    qed
  qed
qed

lemma loc_but_upd_same: "loc_but x g \<Longrightarrow> loc_but x (upd_player x f g)"
  unfolding loc_but_def by (auto elim!: get_player_upd_playerE)

lemma game_ok_imp_mid: "game_ok g \<Longrightarrow> mid_ok x g"
  unfolding game_ok_def mid_ok_def loc_ok_def loc_but_def by blast

lemma mid_ok_gain:
  assumes ok: "mid_ok x g"
      and own: "\<And>p. owned_game_spaces (f p) = owned_game_spaces p"
      and gain: "\<And>p. account_balance p \<le> account_balance (f p)"
  shows "mid_ok x (upd_player x f g)"
proof -
  from ok have b: "board_ok g" and bal: "bal_ok g" and loc: "loc_but x g" and li: "lists_ok g"
    and ow: "owners_ok g" and act: "active_ok g"
    by (simp_all add: mid_ok_def)
  have "bal_ok (upd_player x f g)"
  proof (rule bal_ok_upd_player [OF bal])
    fix p assume "get_player g x = Inr p"
    with bal have "0 \<le> account_balance p" by (auto simp add: bal_ok_def)
    with gain [of p] show "0 \<le> account_balance (f p)" by simp
  qed
  moreover have "active_ok (upd_player x f g)"
  proof (rule active_ok_upd_player [OF act])
    fix p :: Player assume "0 < account_balance p"
    with gain [of p] show "0 < account_balance (f p)" by simp
  qed
  ultimately show ?thesis
    using b loc_but_upd_same [OF loc] lists_ok_upd_player [OF li own]
      owners_ok_upd_player [OF ow own]
    by (simp add: mid_ok_def)
qed

lemma movement_ok:
  assumes ok: "game_ok g" and reg: "get_player g pname = Inr p"
      and pos: "0 < account_balance p"
      and res: "movement g pname n = Inr g'"
  shows "mid_ok pname g' \<and> (\<exists>p'. get_player g' pname = Inr p' \<and> 0 < account_balance p')"
proof -
  from ok have b: "board_ok g" by (simp add: game_ok_def)
  from b have len: "length (game_board g) = 25" by (simp add: board_ok_def)
  from b obtain go_space where go: "get_space g 0 = Inr go_space" and gr: "0 < rent go_space"
    unfolding board_ok_def by force
  show ?thesis
  proof (cases "get_location p + n < 24")
    case True
    with res reg len
    have g': "g' = upd_player pname (set_location (Number (get_location p + n))) g"
      by (simp add: movement_def Let_def)
    have "mid_ok pname g'"
      unfolding g' by (intro mid_ok_gain game_ok_imp_mid ok) simp_all
    moreover have "get_player g' pname = Inr (set_location (Number (get_location p + n)) p)"
      using reg by (simp add: g' get_player_upd_player)
    ultimately show ?thesis using pos by simp
  next
    case False
    define g1 where
      "g1 = upd_player pname (set_location (Number ((get_location p + n) mod 25))) g"
    have reg1: "get_player g1 pname =
                  Inr (set_location (Number ((get_location p + n) mod 25)) p)"
      using reg by (simp add: g1_def get_player_upd_player)
    have "pass_go g1 pname = Inr (upd_player pname (deposit (rent go_space)) g1)"
      using go reg1 by (simp add: pass_go_def g1_def)
    with False res reg len
    have g': "g' = upd_player pname (deposit (rent go_space)) g1"
      by (simp add: movement_def Let_def g1_def)
    have "mid_ok pname g1"
      unfolding g1_def by (intro mid_ok_gain game_ok_imp_mid ok) simp_all
    then have "mid_ok pname g'"
      unfolding g' using gr by (intro mid_ok_gain) simp_all
    moreover have "get_player g' pname =
        Inr (deposit (rent go_space) (set_location (Number ((get_location p + n) mod 25)) p))"
      using reg1 by (simp add: g' get_player_upd_player)
    ultimately show ?thesis using pos gr by simp
  qed
qed

lemma move_player_ok:
  assumes ok: "game_ok g" and res: "move_player g pname n = Inr g'"
  shows "game_ok g'"
proof -
  from res obtain p where reg: "get_player g pname = Inr p"
    by (auto simp add: move_player_def get_player_account_balance_def split: sum.splits)
  show ?thesis
  proof (cases "account_balance p = 0")
    case True
    with res reg ok show ?thesis
      by (simp add: move_player_def get_player_account_balance_def)
  next
    case False
    from ok reg have "0 \<le> account_balance p"
      by (auto simp add: game_ok_def bal_ok_def)
    with False have pos: "0 < account_balance p" by simp
    from False res reg obtain g1 where m: "movement g pname n = Inr g1"
      and r: "pay_rent g1 pname = Inr g'"
      by (auto simp add: move_player_def get_player_account_balance_def split: sum.splits)
    from movement_ok [OF ok reg pos m] obtain p1 where
      "mid_ok pname g1" "get_player g1 pname = Inr p1" "0 < account_balance p1"
      by blast
    with r show ?thesis
      unfolding mid_ok_def by (intro pay_rent_ok [of g1 pname p1 g']) simp_all
  qed
qed

lemma buy_step_ok:
  assumes ok: "game_ok g" and reg: "get_player g pname = Inr p" and pos: "0 < account_balance p"
      and s: "get_space g i = Inr s" and free: "game_space_owner s = None"
      and nm: "game_space_name s \<noteq> GO"
  shows "game_ok (upd_space i (set_game_space_owner pname)
                    (upd_player pname (buy_game_space (game_space_name s)) g))"
proof -
  define g' where "g' = upd_space i (set_game_space_owner pname)
               (upd_player pname (buy_game_space (game_space_name s)) g)"
  from ok have b: "board_ok g" and bal: "bal_ok g" and loc: "loc_ok g" and li: "lists_ok g"
    and ow: "owners_ok g" and act: "active_ok g"
    by (simp_all add: game_ok_def)
  from board_okD(3) [OF b s] nm have name: "game_space_name s = Number i"
    by (auto split: if_splits)
  have s1: "get_space (upd_player pname (buy_game_space (game_space_name s)) g) i = Inr s"
    using s by simp
  have sp: "get_space g' j = (if j = i then Inr (set_game_space_owner pname s) else get_space g j)"
    for j
    using get_space_upd_space [OF s1] by (simp add: g'_def)
  have pl: "get_player g' m =
              (if m = pname then Inr (buy_game_space (Number i) p) else get_player g m)" for m
    using reg by (simp add: g'_def get_player_upd_player name)
  have unowned: "Number i \<notin> set (owned_game_spaces q)" if "get_player g m = Inr q" for m q
  proof
    assume "Number i \<in> set (owned_game_spaces q)"
    with li that obtain s' where "get_space g i = Inr s'" "game_space_owner s' = Some m"
      unfolding lists_ok_def by fastforce
    with s free show False by simp
  qed
  have "board_ok g'"
    unfolding g'_def
    using b s1 by (intro board_ok_upd_space) (simp_all add: set_game_space_owner_def)
  moreover have "bal_ok g'"
    using bal reg by (auto simp add: bal_ok_def pl buy_game_space_def split: if_splits)
  moreover have "loc_ok g'"
    using loc reg
    by (auto simp add: loc_ok_def pl buy_game_space_def get_location_def split: if_splits)
  moreover have "lists_ok g'"
    unfolding lists_ok_def
  proof (intro allI impI conjI ballI)
    fix m q assume q: "get_player g' m = Inr q"
    show "distinct (owned_game_spaces q)"
    proof (cases "m = pname")
      case True
      with q have "owned_game_spaces q = owned_game_spaces p @ [Number i]"
        by (auto simp add: pl buy_game_space_def)
      moreover from li reg have "distinct (owned_game_spaces p)"
        by (auto simp add: lists_ok_def)
      ultimately show ?thesis using unowned [OF reg] by simp
    next
      case False
      with q li show ?thesis by (auto simp add: pl lists_ok_def)
    qed
    fix x assume x: "x \<in> set (owned_game_spaces q)"
    show "\<exists>j t. x = Number j \<and> get_space g' j = Inr t \<and> game_space_name t = x
             \<and> game_space_owner t = Some m"
    proof (cases "m = pname \<and> x = Number i")
      case True
      then show ?thesis
        using name by (auto simp add: sp set_game_space_owner_def)
    next
      case False
      with q x reg obtain q' where q': "get_player g m = Inr q'" "x \<in> set (owned_game_spaces q')"
        by (auto simp add: pl buy_game_space_def split: if_splits)
      with li obtain j t where t: "x = Number j" "get_space g j = Inr t" "game_space_name t = x"
        "game_space_owner t = Some m"
        unfolding lists_ok_def by blast
      with unowned [OF q'(1)] q'(2) have "j \<noteq> i" by auto
      with t show ?thesis by (auto simp add: sp)
    qed
  qed
  moreover have "owners_ok g'"
    unfolding owners_ok_def
  proof (intro allI impI)
    fix j t owner
    assume a: "get_space g' j = Inr t \<and> game_space_owner t = Some owner"
    show "\<exists>q. get_player g' owner = Inr q \<and> Number j \<in> set (owned_game_spaces q)"
    proof (cases "j = i")
      case True
      with a have "owner = pname"
        by (auto simp add: sp set_game_space_owner_def)
      with True show ?thesis by (simp add: pl buy_game_space_def)
    next
      case False
      with a ow obtain q where "get_player g owner = Inr q" "Number j \<in> set (owned_game_spaces q)"
        unfolding owners_ok_def sp by fastforce
      with reg show ?thesis by (auto simp add: pl buy_game_space_def)
    qed
  qed
  moreover have "active_ok g'"
    unfolding active_ok_def
  proof (intro allI impI)
    fix j t owner q
    assume a: "get_space g' j = Inr t \<and> game_space_owner t = Some owner
        \<and> get_player g' owner = Inr q"
    show "0 < account_balance q"
    proof (cases "owner = pname")
      case True
      with a pos show ?thesis by (auto simp add: pl buy_game_space_def)
    next
      case False
      with a have "j \<noteq> i" by (auto simp add: sp set_game_space_owner_def split: if_splits)
      with a False act show ?thesis
        unfolding active_ok_def sp pl by fastforce
    qed
  qed
  ultimately show ?thesis by (simp add: game_ok_def g'_def)
qed

lemma buy_space_ok:
  assumes ok: "game_ok g" and res: "buy_space g pname = Inr (done, g')"
  shows "game_ok g'"
proof -
  from res obtain p s where reg: "get_player g pname = Inr p"
    and s: "get_space g (get_location p) = Inr s"
    by (auto simp add: buy_space_def split: sum.splits)
  from ok have b: "board_ok g" and bal: "bal_ok g" and loc: "loc_ok g" and li: "lists_ok g"
    and ow: "owners_ok g" and act: "active_ok g"
    by (simp_all add: game_ok_def)
  show ?thesis
  proof (cases "account_balance p = 0 \<or> game_space_owner s \<noteq> None \<or> game_space_name s = GO
                  \<or> account_balance p \<le> purchase_price s")
    case True
    with res reg s have "g' = g" by (auto simp add: buy_space_def)
    with ok show ?thesis by simp
  next
    case False
    define g1 where "g1 = upd_player pname (withdraw (purchase_price s)) g"
    from False res reg s
    have g': "g' = upd_space (get_location p) (set_game_space_owner pname)
                     (upd_player pname (buy_game_space (game_space_name s)) g1)"
      by (auto simp add: buy_space_def g1_def)
    from False have less: "purchase_price s < account_balance p" by simp
    have "bal_ok g1"
      unfolding g1_def using reg less by (intro bal_ok_upd_player bal) simp
    moreover have "active_ok g1"
      unfolding g1_def using reg less by (intro active_ok_upd_player act) simp
    moreover have "lists_ok g1"
      unfolding g1_def by (intro lists_ok_upd_player li) simp
    moreover have "owners_ok g1"
      unfolding g1_def by (intro owners_ok_upd_player ow) simp
    moreover have "loc_ok g1"
      unfolding g1_def by (intro loc_ok_upd_player loc) simp
    ultimately have ok1: "game_ok g1"
      using b by (simp add: game_ok_def g1_def)
    have reg1: "get_player g1 pname = Inr (withdraw (purchase_price s) p)"
      using reg by (simp add: g1_def get_player_upd_player)
    have s1: "get_space g1 (get_location p) = Inr s"
      using s by (simp add: g1_def)
    show ?thesis
      unfolding g' using False less
      by (intro buy_step_ok [OF ok1 reg1 _ s1]) simp_all
  qed
qed

lemma perform_ok:
  assumes "game_ok g" and "valid_operation a" and "perform g a = Inr g'"
  shows "game_ok g'"
proof (cases a)
  case (CreatePlayer pname bal)
  with assms show ?thesis by (auto intro: create_player_ok)
next
  case (BuySpace pname)
  with assms show ?thesis by (auto split: sum.splits intro: buy_space_ok)
next
  case (MovePlayer pname n)
  with assms show ?thesis by (auto intro: move_player_ok)
qed

lemma run_ok:
  assumes "game_ok g" and "list_all valid_operation ops" and "run g ops = Inr g'"
  shows "game_ok g'"
  using assms
proof (induction ops arbitrary: g)
  case Nil
  then show ?case by simp
next
  case (Cons a ops)
  from Cons.prems obtain g1 where g1: "perform g a = Inr g1" and r: "run g1 ops = Inr g'"
    by (auto split: sum.splits)
  from Cons.prems g1 have "game_ok g1"
    by (auto intro: perform_ok)
  with Cons.IH [of g1] Cons.prems r show ?case by simp
qed

lemma play_ok:
  assumes "valid_setup go_money rent_list" and "list_all valid_operation ops"
      and "play go_money rent_list ops = Inr g"
  shows "game_ok g"
  using assms run_ok [OF create_spaces_ok] by (simp add: play_def)

subsection \<open>Lists of owned spaces and owners, for any board\<close>

lemma names_ok_upd_player [simp]: "names_ok (upd_player n f g) = names_ok g"
  by (simp add: names_ok_def)

lemma hold_ok_upd_player:
  assumes "hold_ok g" and "\<And>p. owned_game_spaces (f p) = owned_game_spaces p"
  shows "hold_ok (upd_player n f g)"
  using assms by (simp add: hold_ok_def lists_ok_upd_player owners_ok_upd_player)

lemma get_space_in_board:
  assumes "get_space g i = Inr s"
  shows "(i, s) \<in> set (game_board g)"
proof -
  from assms obtain j where "list_index (game_board g) i = Inr j" "game_board g ! j = (i, s)"
    by (auto simp add: get_space_def split: sum.splits prod.splits if_splits)
  then show ?thesis
    using list_index_bound [of "game_board g" i j] by (metis nth_mem)
qed

lemma create_spaces_hold: "hold_ok (create_spaces new_game go_money rent_list)"
proof -
  let ?g = "create_spaces new_game go_money rent_list"
  have entry: "k \<noteq> 0 \<and> game_space_name s = Number k \<and> game_space_owner s = None"
    if "(k, s) \<in> set (map (\<lambda>(num, r). (num, GameSpace_init (Number num) r))
                        (zip [1..24] rent_list))" for k s
  proof -
    from that obtain r where "(k, r) \<in> set (zip [1..24] rent_list)"
      and s: "s = GameSpace_init (Number k) r"
      by auto
    then have "k \<in> set [1..24]" by (auto dest: set_zip_leftD)
    then show ?thesis using s by (simp add: GameSpace_init_def)
  qed
  have sp: "game_space_name s = (if i = 0 then GO else Number i) \<and> game_space_owner s = None"
    if "get_space ?g i = Inr s" for i s
  proof -
    from get_space_in_board [OF that]
    have "(i, s) = (0, GameSpace_init GO go_money)
          \<or> (i, s) \<in> set (map (\<lambda>(num, r). (num, GameSpace_init (Number num) r))
                          (zip [1..24] rent_list))"
      by (simp add: game_board_create_spaces)
    then show ?thesis
    proof
      assume "(i, s) = (0, GameSpace_init GO go_money)"
      then show ?thesis by (simp add: GameSpace_init_def)
    next
      assume "(i, s) \<in> set (map (\<lambda>(num, r). (num, GameSpace_init (Number num) r))
                          (zip [1..24] rent_list))"
      from entry [OF this] show ?thesis by simp
    qed
  qed
  have nobody: "get_player ?g n = Inl KeyError" for n
    by (simp add: get_player_def create_spaces_def new_game_def)
  show ?thesis
    unfolding hold_ok_def names_ok_def lists_ok_def owners_ok_def
    using sp by (auto simp add: nobody)
qed

lemma create_player_hold:
  assumes ok: "hold_ok g"
  shows "hold_ok (snd (create_player g pname bal))"
proof (cases "get_player g pname")
  case (Inr p)
  then have "pname \<in> fst ` set (players g)"
    by (simp add: get_player_Inr) (metis domI dom_map_of_conv_image_fst)
  with ok show ?thesis by (simp add: create_player_def)
next
  case (Inl e)
  let ?g = "snd (create_player g pname bal)"
  note pl = create_player_fresh(1) [OF Inl, of bal]
  have "game_board ?g = game_board g" by (rule create_player_fresh(2) [OF Inl])
  then have sp: "get_space ?g i = get_space g i" for i
    by (simp add: get_space_def cong: sum.case_cong)
  from ok have "names_ok ?g" by (simp add: hold_ok_def names_ok_def sp)
  moreover from ok have "lists_ok ?g"
    by (auto simp add: hold_ok_def lists_ok_def pl sp Player_init_def split: if_splits)
  moreover have "owners_ok ?g"
    unfolding owners_ok_def
  proof (intro allI impI)
    fix i s owner
    assume "get_space ?g i = Inr s \<and> game_space_owner s = Some owner"
    with ok obtain p where p: "get_player g owner = Inr p" "Number i \<in> set (owned_game_spaces p)"
      unfolding hold_ok_def owners_ok_def sp by blast
    with Inl have "owner \<noteq> pname" by auto
    with p show "\<exists>p. get_player ?g owner = Inr p \<and> Number i \<in> set (owned_game_spaces p)"
      by (simp add: pl)
  qed
  ultimately show ?thesis by (simp add: hold_ok_def)
qed

lemma lose_game_hold:
  assumes ok: "hold_ok g" and res: "lose_game g pname = Inr g'"
  shows "hold_ok g'"
proof -
  from ok have nm: "names_ok g" and li: "lists_ok g" and ow: "owners_ok g"
    by (simp_all add: hold_ok_def)
  from res obtain p where reg: "get_player g pname = Inr p"
    by (auto simp add: lose_game_def split: sum.splits)
  from lose_game_view [OF reg lists_ok_on_board [OF li reg]] res
  have sp: "\<And>i. get_space g' i =
                 (if Number i \<in> set (owned_game_spaces p)
                  then (case get_space g i of Inl e \<Rightarrow> Inl e
                        | Inr s \<Rightarrow> Inr (remove_game_space_owner s))
                  else get_space g i)"
    and pl: "\<And>m. get_player g' m =
                 (if m = pname then Inr (p\<lparr>owned_game_spaces := []\<rparr>) else get_player g m)"
    by auto
  have mine: "Number i \<in> set (owned_game_spaces p) \<Longrightarrow> get_space g i = Inr s
      \<Longrightarrow> game_space_owner s = Some pname" for i s
    using li reg unfolding lists_ok_def by fastforce
  have kept: "get_space g i = Inr s \<and> Number i \<notin> set (owned_game_spaces p)"
    if "get_space g' i = Inr s" "game_space_owner s = Some owner" for i s owner
    using that by (auto simp add: sp remove_game_space_owner_def split: if_splits sum.splits)
  have "names_ok g'"
    unfolding names_ok_def
  proof (intro allI impI)
    fix i s assume "get_space g' i = Inr s"
    then obtain s0 where "get_space g i = Inr s0" "game_space_name s = game_space_name s0"
      by (auto simp add: sp remove_game_space_owner_def split: if_splits sum.splits)
    with nm show "game_space_name s = (if i = 0 then GO else Number i)"
      by (simp add: names_ok_def)
  qed
  moreover have "lists_ok g'"
    unfolding lists_ok_def
  proof (intro allI impI conjI ballI)
    fix m q assume q: "get_player g' m = Inr q"
    show "distinct (owned_game_spaces q)"
      using q li by (auto simp add: pl lists_ok_def split: if_splits)
    fix x assume x: "x \<in> set (owned_game_spaces q)"
    with q have m: "m \<noteq> pname" and gq: "get_player g m = Inr q"
      by (auto simp add: pl split: if_splits)
    with li x obtain i s where s: "x = Number i" "get_space g i = Inr s"
      "game_space_name s = x" "game_space_owner s = Some m"
      unfolding lists_ok_def by blast
    with mine m have "Number i \<notin> set (owned_game_spaces p)"
      by auto
    with s show "\<exists>i s. x = Number i \<and> get_space g' i = Inr s \<and> game_space_name s = x
             \<and> game_space_owner s = Some m"
      by (simp add: sp)
  qed
  moreover have "owners_ok g'"
    unfolding owners_ok_def
  proof (intro allI impI)
    fix i s owner
    assume a: "get_space g' i = Inr s \<and> game_space_owner s = Some owner"
    then have k: "get_space g i = Inr s" "Number i \<notin> set (owned_game_spaces p)"
      using kept by blast+
    with a ow obtain q where q: "get_player g owner = Inr q" "Number i \<in> set (owned_game_spaces q)"
      unfolding owners_ok_def by blast
    with k reg have "owner \<noteq> pname" by auto
    with q show "\<exists>p. get_player g' owner = Inr p \<and> Number i \<in> set (owned_game_spaces p)"
      by (simp add: pl)
  qed
  ultimately show ?thesis by (simp add: hold_ok_def)
qed

lemma pay_rent_hold:
  assumes ok: "hold_ok g" and res: "pay_rent g pname = Inr g'"
  shows "hold_ok g'"
proof -
  from res obtain p s where reg: "get_player g pname = Inr p"
    and s: "get_space g (get_location p) = Inr s"
    by (auto simp add: pay_rent_def split: sum.splits)
  show ?thesis
  proof (cases "game_space_owner s")
    case None
    with res reg s ok show ?thesis by (simp add: pay_rent_def)
  next
    case (Some owner)
    show ?thesis
    proof (cases "owner = ''GO''")
      case True
      with res reg s Some ok show ?thesis by (simp add: pay_rent_def)
    next
      case False
      with res reg s Some obtain q where q: "get_player g owner = Inr q"
        by (auto simp add: pay_rent_def split: sum.splits)
      define a where "a = min (rent s) (account_balance p)"
      define g2 where "g2 = upd_player owner (deposit a) (upd_player pname (withdraw a) g)"
      from pay_rent_min [OF reg s Some False q]
      have step: "pay_rent g pname = (if rent s < account_balance p then Inr g2 else lose_game g2 pname)"
        by (simp add: Let_def a_def g2_def)
      have "hold_ok g2"
        unfolding g2_def by (intro hold_ok_upd_player ok) simp_all
      with step res show ?thesis
        by (auto split: if_splits intro: lose_game_hold)
    qed
  qed
qed

lemma pass_go_hold:
  assumes "hold_ok g" and "pass_go g pname = Inr g'"
  shows "hold_ok g'"
  using assms by (auto simp add: pass_go_def split: sum.splits intro!: hold_ok_upd_player)

lemma movement_hold:
  assumes ok: "hold_ok g" and res: "movement g pname n = Inr g'"
  shows "hold_ok g'"
proof -
  have "hold_ok (upd_player pname (set_location nm) g)" for nm
    by (intro hold_ok_upd_player ok) simp
  with res show ?thesis
    by (auto simp add: movement_def Let_def split: sum.splits if_splits intro: pass_go_hold)
qed

lemma move_player_hold:
  assumes "hold_ok g" and "move_player g pname n = Inr g'"
  shows "hold_ok g'"
  using assms
  by (auto simp add: move_player_def split: sum.splits if_splits
      intro: pay_rent_hold movement_hold)

lemma buy_space_hold:
  assumes ok: "hold_ok g" and res: "buy_space g pname = Inr (done, g')"
  shows "hold_ok g'"
proof -
  from res obtain p s where reg: "get_player g pname = Inr p"
    and s: "get_space g (get_location p) = Inr s"
    by (auto simp add: buy_space_def split: sum.splits)
  show ?thesis
  proof (cases "account_balance p = 0 \<or> game_space_owner s \<noteq> None \<or> game_space_name s = GO
                  \<or> account_balance p \<le> purchase_price s")
    case True
    with res reg s have "g' = g" by (auto simp add: buy_space_def)
    with ok show ?thesis by simp
  next
    case False
    define i where "i = get_location p"
    define g1 where "g1 = upd_player pname (withdraw (purchase_price s)) g"
    define g2 where "g2 = upd_player pname (buy_game_space (game_space_name s)) g1"
    from False res reg s have g': "g' = upd_space i (set_game_space_owner pname) g2"
      by (auto simp add: buy_space_def g1_def g2_def i_def)
    have ok1: "hold_ok g1"
      unfolding g1_def by (intro hold_ok_upd_player ok) simp
    then have nm: "names_ok g1" and li: "lists_ok g1" and ow: "owners_ok g1"
      by (simp_all add: hold_ok_def)
    have reg1: "get_player g1 pname = Inr (withdraw (purchase_price s) p)"
      using reg by (simp add: g1_def get_player_upd_player)
    have s1: "get_space g1 i = Inr s"
      using s by (simp add: g1_def i_def)
    from nm s1 False have name: "game_space_name s = Number i"
      by (auto simp add: names_ok_def split: if_splits)
    from False have free: "game_space_owner s = None" by simp
    have s2: "get_space g2 i = Inr s"
      using s1 by (simp add: g2_def)
    have sp: "get_space g' j = (if j = i then Inr (set_game_space_owner pname s) else get_space g1 j)"
      for j
      using get_space_upd_space [OF s2] by (simp add: g' g2_def)
    have pl: "get_player g' m =
                (if m = pname then Inr (buy_game_space (Number i) (withdraw (purchase_price s) p))
                 else get_player g1 m)" for m
      using reg1 by (simp add: g' g2_def get_player_upd_player name)
    have unowned: "Number i \<notin> set (owned_game_spaces q)" if "get_player g1 m = Inr q" for m q
    proof
      assume "Number i \<in> set (owned_game_spaces q)"
      with li that obtain s' where "get_space g1 i = Inr s'" "game_space_owner s' = Some m"
        unfolding lists_ok_def by fastforce
      with s1 free show False by simp
    qed
    have "names_ok g'"
      using nm s1 unfolding names_ok_def
      by (auto simp add: sp set_game_space_owner_def split: if_splits)
    moreover have "lists_ok g'"
      unfolding lists_ok_def
    proof (intro allI impI conjI ballI)
      fix m q assume q: "get_player g' m = Inr q"
      show "distinct (owned_game_spaces q)"
      proof (cases "m = pname")
        case True
        with q have "owned_game_spaces q = owned_game_spaces p @ [Number i]"
          by (auto simp add: pl buy_game_space_def)
        moreover from li reg1 have "distinct (owned_game_spaces (withdraw (purchase_price s) p))"
          unfolding lists_ok_def by blast
        ultimately show ?thesis using unowned [OF reg1] by simp
      next
        case False
        with q li show ?thesis by (auto simp add: pl lists_ok_def)
      qed
      fix x assume x: "x \<in> set (owned_game_spaces q)"
      show "\<exists>j t. x = Number j \<and> get_space g' j = Inr t \<and> game_space_name t = x
               \<and> game_space_owner t = Some m"
      proof (cases "m = pname \<and> x = Number i")
        case True
        then show ?thesis
          using name by (auto simp add: sp set_game_space_owner_def)
      next
        case False
        with q x reg1 obtain q' where q': "get_player g1 m = Inr q'"
          "x \<in> set (owned_game_spaces q')"
          by (auto simp add: pl buy_game_space_def split: if_splits)
        with li obtain j t where t: "x = Number j" "get_space g1 j = Inr t"
          "game_space_name t = x" "game_space_owner t = Some m"
          unfolding lists_ok_def by blast
        with unowned [OF q'(1)] q'(2) have "j \<noteq> i" by auto
        with t show ?thesis by (auto simp add: sp)
      qed
    qed
    moreover have "owners_ok g'"
      unfolding owners_ok_def
    proof (intro allI impI)
      fix j t owner
      assume a: "get_space g' j = Inr t \<and> game_space_owner t = Some owner"
      show "\<exists>q. get_player g' owner = Inr q \<and> Number j \<in> set (owned_game_spaces q)"
      proof (cases "j = i")
        case True
        with a have "owner = pname"
          by (auto simp add: sp set_game_space_owner_def)
        with True show ?thesis by (simp add: pl buy_game_space_def)
      next
        case False
        with a ow obtain q where "get_player g1 owner = Inr q"
          "Number j \<in> set (owned_game_spaces q)"
          unfolding owners_ok_def sp by fastforce
        with reg1 show ?thesis by (auto simp add: pl buy_game_space_def)
      qed
    qed
    ultimately show ?thesis by (simp add: hold_ok_def)
  qed
qed

lemma perform_hold:
  assumes "hold_ok g" and "perform g a = Inr g'"
  shows "hold_ok g'"
proof (cases a)
  case (CreatePlayer pname bal)
  with assms show ?thesis by (auto intro: create_player_hold)
next
  case (BuySpace pname)
  with assms show ?thesis by (auto split: sum.splits intro: buy_space_hold)
next
  case (MovePlayer pname n)
  with assms show ?thesis by (auto intro: move_player_hold)
qed

lemma run_hold:
  assumes "hold_ok g" and "run g ops = Inr g'"
  shows "hold_ok g'"
  using assms
proof (induction ops arbitrary: g)
  case Nil
  then show ?case by simp
next
  case (Cons a ops)
  from Cons.prems obtain g1 where g1: "perform g a = Inr g1" and r: "run g1 ops = Inr g'"
    by (auto split: sum.splits)
  from Cons.prems g1 have "hold_ok g1"
    by (auto intro: perform_hold)
  with Cons.IH [of g1] r show ?case by simp
qed

lemma play_hold: "play go_money rent_list ops = Inr g \<Longrightarrow> hold_ok g"
  using run_hold [OF create_spaces_hold] by (simp add: play_def)

subsection \<open>Balances\<close>

lemma remove_owners_players: "remove_owners ns g = Inr g' \<Longrightarrow> players g' = players g"
proof (induction ns arbitrary: g)
  case Nil
  then show ?case by simp
next
  case (Cons nm ns)
  then show ?case
    by (cases nm) (auto split: sum.splits)
qed

lemma lose_game_players:
  assumes "lose_game g pname = Inr g'"
  shows "get_player g' m =
           (if m = pname
            then (case get_player g pname of Inl e \<Rightarrow> Inl e
                  | Inr p \<Rightarrow> Inr (p\<lparr>owned_game_spaces := []\<rparr>))
            else get_player g m)"
proof -
  from assms obtain p g1 where reg: "get_player g pname = Inr p"
    and r: "remove_owners (owned_game_spaces p) g = Inr g1"
    and g': "g' = upd_player pname clear_owned_game_spaces g1"
    by (auto simp add: lose_game_def split: sum.splits)
  from remove_owners_players [OF r] have "get_player g1 k = get_player g k" for k
    by (simp add: get_player_def)
  with reg show ?thesis
    by (simp add: g' get_player_upd_player clear_owned_game_spaces_def)
qed

lemma pay_rent_balance:
  assumes reg: "get_player h pname = Inr p"
      and s: "get_space h (get_location p) = Inr s"
      and res: "pay_rent h pname = Inr h'"
  shows "get_player_account_balance h' pname =
           Inr (case game_space_owner s of
                  None \<Rightarrow> account_balance p
                | Some owner \<Rightarrow>
                    if owner = ''GO'' \<or> owner = pname then account_balance p
                    else account_balance p - min (rent s) (account_balance p))"
proof (cases "game_space_owner s")
  case None
  with assms show ?thesis
    by (simp add: pay_rent_def get_player_account_balance_def)
next
  case (Some owner)
  show ?thesis
  proof (cases "owner = ''GO''")
    case True
    with Some assms show ?thesis
      by (simp add: pay_rent_def get_player_account_balance_def)
  next
    case False
    with res reg s Some obtain q where q: "get_player h owner = Inr q"
      by (auto simp add: pay_rent_def split: sum.splits)
    define a where "a = min (rent s) (account_balance p)"
    define h2 where "h2 = upd_player owner (deposit a) (upd_player pname (withdraw a) h)"
    from pay_rent_min [OF reg s Some False q]
    have step: "pay_rent h pname = (if rent s < account_balance p then Inr h2 else lose_game h2 pname)"
      by (simp add: Let_def a_def h2_def)
    have reg2: "get_player h2 pname =
                  Inr (if owner = pname then deposit a (withdraw a p) else withdraw a p)"
      using reg by (auto simp add: h2_def get_player_upd_player)
    have "get_player_account_balance h' pname = get_player_account_balance h2 pname"
    proof (cases "rent s < account_balance p")
      case True
      with step res show ?thesis by simp
    next
      case False
      with step res have "lose_game h2 pname = Inr h'" by simp
      from lose_game_players [OF this, of pname] reg2 show ?thesis
        by (simp add: get_player_account_balance_def)
    qed
    with reg2 Some False show ?thesis
      by (simp add: get_player_account_balance_def a_def)
  qed
qed

lemma pay_rent_others:
  assumes act: "active_ok g" and reg: "get_player g x = Inr p" and zero: "account_balance p = 0"
      and other: "x \<noteq> pname" and res: "pay_rent g pname = Inr g'"
  shows "get_player g' x = Inr p"
proof -
  from res obtain q s where q: "get_player g pname = Inr q"
    and s: "get_space g (get_location q) = Inr s"
    by (auto simp add: pay_rent_def split: sum.splits)
  show ?thesis
  proof (cases "game_space_owner s")
    case None
    with res q s reg show ?thesis by (simp add: pay_rent_def)
  next
    case (Some owner)
    show ?thesis
    proof (cases "owner = ''GO''")
      case True
      with res q s Some reg show ?thesis by (simp add: pay_rent_def)
    next
      case False
      with res q s Some obtain r where r: "get_player g owner = Inr r"
        by (auto simp add: pay_rent_def split: sum.splits)
      with act s Some have "0 < account_balance r"
        unfolding active_ok_def by blast
      with r reg zero have ne: "owner \<noteq> x" by auto
      define a where "a = min (rent s) (account_balance q)"
      define g2 where "g2 = upd_player owner (deposit a) (upd_player pname (withdraw a) g)"
      from pay_rent_min [OF q s Some False r]
      have step: "pay_rent g pname = (if rent s < account_balance q then Inr g2 else lose_game g2 pname)"
        by (simp add: Let_def a_def g2_def)
      have x2: "get_player g2 x = Inr p"
        using reg ne other by (simp add: g2_def get_player_upd_player)
      show ?thesis
      proof (cases "rent s < account_balance q")
        case True
        with step res x2 show ?thesis by simp
      next
        case False
        with step res have "lose_game g2 pname = Inr g'" by simp
        from lose_game_players [OF this, of x] other x2 show ?thesis by simp
      qed
    qed
  qed
qed

lemma eliminated_perform:
  assumes ok: "game_ok g" and reg: "get_player g x = Inr p" and zero: "account_balance p = 0"
      and res: "perform g a = Inr g'"
  shows "get_player g' x = Inr p"
proof (cases a)
  case (CreatePlayer pname bal)
  show ?thesis
  proof (cases "get_player g pname")
    case (Inl e)
    with reg have "pname \<noteq> x" by auto
    with create_player_fresh(1) [OF Inl, of bal x] res reg CreatePlayer show ?thesis by auto
  next
    case (Inr q)
    then have "pname \<in> fst ` set (players g)"
      by (simp add: get_player_Inr) (metis domI dom_map_of_conv_image_fst)
    with res reg CreatePlayer show ?thesis by (auto simp add: create_player_def)
  qed
next
  case (BuySpace pname)
  with res obtain flag where b: "buy_space g pname = Inr (flag, g')"
    by (auto split: sum.splits)
  show ?thesis
  proof (cases "g' = g")
    case True
    with reg show ?thesis by simp
  next
    case False
    with b obtain q i nm c where "get_player g pname = Inr q"
      and g': "g' = upd_space i (set_game_space_owner pname)
                     (upd_player pname (buy_game_space nm) (upd_player pname (withdraw c) g))"
      and "account_balance q \<noteq> 0"
      by (auto simp add: buy_space_def split: sum.splits if_splits)
    with reg zero have "pname \<noteq> x" by auto
    with reg show ?thesis by (simp add: g' get_player_upd_player)
  qed
next
  case (MovePlayer pname n)
  with res have m: "move_player g pname n = Inr g'" by simp
  then obtain q where q: "get_player g pname = Inr q"
    by (auto simp add: move_player_def get_player_account_balance_def split: sum.splits)
  show ?thesis
  proof (cases "account_balance q = 0")
    case True
    with m q reg show ?thesis
      by (simp add: move_player_def get_player_account_balance_def)
  next
    case False
    with q reg zero have ne: "x \<noteq> pname" by auto
    from ok q have "0 \<le> account_balance q"
      by (auto simp add: game_ok_def bal_ok_def)
    with False have pos: "0 < account_balance q" by simp
    from False m q obtain g1 where mv: "movement g pname n = Inr g1"
      and r: "pay_rent g1 pname = Inr g'"
      by (auto simp add: move_player_def get_player_account_balance_def split: sum.splits)
    from movement_ok [OF ok q pos mv] have act1: "active_ok g1"
      by (simp add: mid_ok_def)
    have "get_player g1 x = Inr p"
      using mv q reg ne
      by (auto simp add: movement_def Let_def pass_go_def get_player_upd_player
          split: if_splits sum.splits)
    from pay_rent_others [OF act1 this zero ne r] show ?thesis .
  qed
qed

lemma eliminated_run:
  assumes "game_ok g" and "list_all valid_operation later"
      and "get_player g x = Inr p" and "account_balance p = 0"
      and "run g later = Inr g'"
  shows "get_player g' x = Inr p"
  using assms
proof (induction later arbitrary: g)
  case Nil
  then show ?case by simp
next
  case (Cons a later)
  from Cons.prems obtain g1 where g1: "perform g a = Inr g1" and r: "run g1 later = Inr g'"
    by (auto split: sum.splits)
  from Cons.prems g1 have "game_ok g1"
    by (auto intro: perform_ok)
  moreover from Cons.prems g1 have "get_player g1 x = Inr p"
    by (auto intro: eliminated_perform)
  ultimately show ?case
    using Cons.IH [of g1] Cons.prems r by simp
qed

lemma eliminated_noop:
  assumes ok: "game_ok g" and reg: "get_player g x = Inr p" and zero: "account_balance p = 0"
  shows "move_player g x n = Inr g" and "buy_space g x = Inr (False, g)"
proof -
  show "move_player g x n = Inr g"
    using reg zero by (simp add: move_player_def get_player_account_balance_def)
  from ok reg have "0 \<le> get_location p \<and> get_location p < 25"
    by (auto simp add: game_ok_def loc_ok_def)
  with ok obtain s where "get_space g (get_location p) = Inr s"
    unfolding game_ok_def board_ok_def by blast
  with reg zero show "buy_space g x = Inr (False, g)"
    by (simp add: buy_space_def)
qed

section \<open>Duplicate player names\<close>

text \<open>
  C9: \<^verbatim>\<open>create_player\<close> with a name that is already registered leaves the whole game
  as it is, raises nothing and reports the collision by the message it prints.
\<close>

theorem create_player_duplicate:
  assumes "get_player g pname = Inr p"
  shows "create_player g pname bal =
           (Some ''Player was not added to the game as this name is already in use.'', g)"
proof -
  from assms have "map_of (players g) pname = Some p"
    by (simp add: get_player_def split: option.splits)
  then have "pname \<in> fst ` set (players g)"
    by (metis domI dom_map_of_conv_image_fst)
  then show ?thesis
    by (simp add: create_player_def)
qed

theorem create_player_duplicate_witness:
  "get_player three_players ''A'' = Inr (Player_init ''A'' 100)
   \<and> create_player three_players ''A'' 7 =
       (Some ''Player was not added to the game as this name is already in use.'', three_players)"
proof -
  have h: "get_player three_players ''A'' = Inr (Player_init ''A'' 100)"
    by code_simp
  from create_player_duplicate [OF h, of 7] h show ?thesis
    by simp
qed

section \<open>The end of the game\<close>

text \<open>
  C1: \<^verbatim>\<open>check_game_over\<close> is claimed to name a winner exactly when all but one of the
  registered players have balance 0. The source compares the number of players with
  balance 0 to 1, not to the number of players less one: with three players of whom one
  has balance 0, it names the last of the two others.
\<close>

theorem check_game_over_one_of_three:
  "map (\<lambda>(k, p). account_balance p) (players three_players) = [100, 100, 0]
   \<and> check_game_over three_players = Some ''B''"
  by code_simp

section \<open>Landing on one's own space\<close>

text \<open>
  C2: a player who lands on a space they own is claimed to keep their balance, their
  list of owned spaces and every owner field. \<^verbatim>\<open>pay_rent\<close> does not compare the owner
  with the player: when the rent is not below the balance, the player pays the balance to
  themselves and \<^verbatim>\<open>lose_game\<close> then takes all their spaces away. Here player A owns
  space 1 of rent 50 and stands on it with balance 1; \<^verbatim>\<open>move_player\<close> by 25 spaces
  brings them back to it past GO, with balance 2, and its \<^verbatim>\<open>pay_rent\<close> leaves A with
  balance 2, no space in their list, and space 1 without owner.
\<close>

theorem pay_rent_on_own_space:
  "get_player own_landing ''A'' =
     Inr \<lparr>player_name = ''A'', account_balance = 2, current_location = Number 1,
          owned_game_spaces = [Number 1]\<rparr>
   \<and> get_owner own_landing 1 = Inr (Some ''A'')
   \<and> move_player own_space ''A'' 25 = pay_rent own_landing ''A''
   \<and> and_then (pay_rent own_landing ''A'') (\<lambda>g'. get_player g' ''A'') =
       Inr \<lparr>player_name = ''A'', account_balance = 2, current_location = Number 1,
            owned_game_spaces = []\<rparr>
   \<and> and_then (pay_rent own_landing ''A'') (\<lambda>g'. get_owner g' 1) = Inr None"
  by code_simp

section \<open>Buying a space\<close>

text \<open>
  C3: for a registered player standing on a space of the board, \<^verbatim>\<open>buy_space\<close> returns
  true exactly when the balance is positive, the space is not GO, the space has no
  owner and the balance is strictly above the purchase price. On success the price is
  withdrawn, the space is appended to the player's list and the player becomes the
  owner, nothing else changes; on failure the game is unchanged. The purchase price is
  taken to be non-negative, as it is for the positive rents the board is built from.
\<close>

theorem buy_space_spec:
  assumes reg: "get_player g pname = Inr p"
      and cur: "get_space g (get_location p) = Inr s"
      and price: "0 \<le> purchase_price s"
  shows "\<exists>ok g'. buy_space g pname = Inr (ok, g')
           \<and> (ok \<longleftrightarrow> 0 < account_balance p \<and> game_space_name s \<noteq> GO
                       \<and> game_space_owner s = None \<and> purchase_price s < account_balance p)
           \<and> (ok \<longrightarrow>
                 get_player g' pname =
                   Inr (p\<lparr>account_balance := account_balance p - purchase_price s,
                          owned_game_spaces := owned_game_spaces p @ [game_space_name s]\<rparr>)
               \<and> get_space g' (get_location p) = Inr (s\<lparr>game_space_owner := Some pname\<rparr>)
               \<and> (\<forall>m. m \<noteq> pname \<longrightarrow> get_player g' m = get_player g m)
               \<and> (\<forall>j. j \<noteq> get_location p \<longrightarrow> get_space g' j = get_space g j))
           \<and> (\<not> ok \<longrightarrow> g' = g)"
proof (cases "account_balance p = 0 \<or> game_space_owner s \<noteq> None \<or> game_space_name s = GO
                \<or> account_balance p \<le> purchase_price s")
  case True
  then have "buy_space g pname = Inr (False, g)"
    using reg cur by (simp add: buy_space_def)
  moreover from True price
  have "\<not> (0 < account_balance p \<and> game_space_name s \<noteq> GO
               \<and> game_space_owner s = None \<and> purchase_price s < account_balance p)"
    by auto
  ultimately show ?thesis
    by (intro exI [where x = False] exI [where x = g]) simp
next
  case False
  define g1 where "g1 = upd_player pname (buy_game_space (game_space_name s))
                          (upd_player pname (withdraw (purchase_price s)) g)"
  define g' where "g' = upd_space (get_location p) (set_game_space_owner pname) g1"
  from False reg cur have res: "buy_space g pname = Inr (True, g')"
    by (simp add: buy_space_def g'_def g1_def)
  have cur1: "get_space g1 (get_location p) = Inr s"
    using cur by (simp add: g1_def)
  have pl: "get_player g' pname =
              Inr (p\<lparr>account_balance := account_balance p - purchase_price s,
                     owned_game_spaces := owned_game_spaces p @ [game_space_name s]\<rparr>)"
    using reg by (simp add: g'_def g1_def get_player_upd_player withdraw_def buy_game_space_def)
  have sp: "get_space g' j = (if j = get_location p then Inr (set_game_space_owner pname s)
                               else get_space g j)" for j
    unfolding g'_def using get_space_upd_space [OF cur1] by (simp add: g1_def)
  have others: "get_player g' m = get_player g m" if "m \<noteq> pname" for m
    using that by (simp add: g'_def g1_def get_player_upd_player)
  from False price have ok: "0 < account_balance p \<and> game_space_name s \<noteq> GO
       \<and> game_space_owner s = None \<and> purchase_price s < account_balance p"
    by auto
  show ?thesis
    using res pl sp others ok
    by (intro exI [where x = True] exI [where x = g']) (simp add: set_game_space_owner_def)
qed

theorem buy_space_spec_witness:
  "\<exists>g'. buy_space about_to_buy ''A'' = Inr (True, g')
      \<and> get_player g' ''A'' =
          Inr \<lparr>player_name = ''A'', account_balance = 1, current_location = Number 1,
               owned_game_spaces = [Number 1]\<rparr>
      \<and> get_owner g' 1 = Inr (Some ''A'')"
proof -
  have h1: "get_player about_to_buy ''A'' =
              Inr \<lparr>player_name = ''A'', account_balance = 251, current_location = Number 1,
                   owned_game_spaces = []\<rparr>"
    by code_simp
  have h2: "get_space about_to_buy
              (get_location \<lparr>player_name = ''A'', account_balance = 251,
                             current_location = Number 1, owned_game_spaces = []\<rparr>) =
              Inr (GameSpace_init (Number 1) 50)"
    by code_simp
  have h3: "0 \<le> purchase_price (GameSpace_init (Number 1) 50)"
    by (simp add: GameSpace_init_def)
  from buy_space_spec [OF h1 h2 h3] show ?thesis
    by (auto simp add: GameSpace_init_def get_owner_def get_location_def)
qed

section \<open>Moving around the board\<close>

text \<open>
  C4: on the board of 25 spaces, \<^verbatim>\<open>movement\<close> of a registered player from position
  pos by n spaces sets the position to pos + n and leaves the balance alone when
  pos + n < 24; otherwise (24 included) it sets the position to (pos + n) mod 25 and
  deposits the GO payout once, whatever the new position is. For an active player,
  \<^verbatim>\<open>move_player\<close> is this movement followed by \<^verbatim>\<open>pay_rent\<close>.
\<close>

theorem movement_spec:
  assumes reg: "get_player g pname = Inr p"
      and len: "length (game_board g) = 25"
      and go: "get_space g 0 = Inr go_space"
  shows "\<exists>g'. movement g pname spaces_to_move = Inr g'
           \<and> get_player g' pname =
               Inr (if get_location p + spaces_to_move < 24
                    then p\<lparr>current_location := Number (get_location p + spaces_to_move)\<rparr>
                    else p\<lparr>current_location := Number ((get_location p + spaces_to_move) mod 25),
                           account_balance := account_balance p + rent go_space\<rparr>)
           \<and> (\<forall>m. m \<noteq> pname \<longrightarrow> get_player g' m = get_player g m)
           \<and> game_board g' = game_board g
           \<and> (account_balance p \<noteq> 0 \<longrightarrow>
                 move_player g pname spaces_to_move = pay_rent g' pname)"
proof (cases "get_location p + spaces_to_move < 24")
  case True
  define g' where "g' = upd_player pname (set_location (Number (get_location p + spaces_to_move))) g"
  from True reg len have res: "movement g pname spaces_to_move = Inr g'"
    by (simp add: movement_def g'_def Let_def)
  have "get_player g' pname = Inr (p\<lparr>current_location := Number (get_location p + spaces_to_move)\<rparr>)"
    using reg by (simp add: g'_def get_player_upd_player set_location_def)
  moreover have "\<forall>m. m \<noteq> pname \<longrightarrow> get_player g' m = get_player g m"
    by (simp add: g'_def get_player_upd_player)
  moreover have "game_board g' = game_board g"
    by (simp add: g'_def)
  moreover have "account_balance p \<noteq> 0 \<longrightarrow> move_player g pname spaces_to_move = pay_rent g' pname"
    using reg res by (simp add: move_player_def get_player_account_balance_def)
  ultimately show ?thesis using True res by simp
next
  case False
  define g1 where
    "g1 = upd_player pname (set_location (Number ((get_location p + spaces_to_move) mod 25))) g"
  define g' where "g' = upd_player pname (deposit (rent go_space)) g1"
  have reg1: "get_player g1 pname =
                Inr (p\<lparr>current_location := Number ((get_location p + spaces_to_move) mod 25)\<rparr>)"
    using reg by (simp add: g1_def get_player_upd_player set_location_def)
  have "pass_go g1 pname = Inr g'"
    using go reg1 by (simp add: pass_go_def g1_def g'_def)
  with False reg len have res: "movement g pname spaces_to_move = Inr g'"
    by (simp add: movement_def g1_def Let_def)
  have "get_player g' pname =
          Inr (p\<lparr>current_location := Number ((get_location p + spaces_to_move) mod 25),
                 account_balance := account_balance p + rent go_space\<rparr>)"
    using reg1 by (simp add: g'_def get_player_upd_player deposit_def)
  moreover have "\<forall>m. m \<noteq> pname \<longrightarrow> get_player g' m = get_player g m"
    by (simp add: g'_def g1_def get_player_upd_player)
  moreover have "game_board g' = game_board g"
    by (simp add: g'_def g1_def)
  moreover have "account_balance p \<noteq> 0 \<longrightarrow> move_player g pname spaces_to_move = pay_rent g' pname"
    using reg res by (simp add: move_player_def get_player_account_balance_def)
  ultimately show ?thesis using False res by simp
qed

theorem movement_spec_witness:
  "\<exists>g'. movement about_to_buy ''A'' 23 = Inr g'
      \<and> get_player g' ''A'' =
          Inr \<lparr>player_name = ''A'', account_balance = 252, current_location = Number 24,
               owned_game_spaces = []\<rparr>
      \<and> move_player about_to_buy ''A'' 23 = pay_rent g' ''A''"
proof -
  have h1: "get_player about_to_buy ''A'' =
              Inr \<lparr>player_name = ''A'', account_balance = 251, current_location = Number 1,
                   owned_game_spaces = []\<rparr>"
    by code_simp
  have h2: "length (game_board about_to_buy) = 25"
    by code_simp
  have h3: "get_space about_to_buy 0 = Inr (GameSpace_init GO 1)"
    by code_simp
  from movement_spec [OF h1 h2 h3, of 23] show ?thesis
    by (auto simp add: GameSpace_init_def get_location_def)
qed

section \<open>Paying rent\<close>

text \<open>
  C5, amended: when the space the player stands on has an owner other than none, other
  than the name GO and other than the player, \<^verbatim>\<open>pay_rent\<close> moves the rent from the
  player to the owner and leaves the player with a positive balance if the rent is
  below the player's balance; otherwise (equality included) it moves the whole balance
  to the owner, leaves the player with balance 0 and an empty list of spaces, and clears
  the owner of every space of that list.
\<close>

theorem pay_rent_spec:
  assumes reg: "get_player g pname = Inr p"
      and cur: "get_space g (get_location p) = Inr s"
      and own: "game_space_owner s = Some owner"
      and notgo: "owner \<noteq> ''GO''"
      and other: "owner \<noteq> pname"
      and oreg: "get_player g owner = Inr q"
  shows "(rent s < account_balance p \<longrightarrow>
            (\<exists>g'. pay_rent g pname = Inr g'
               \<and> get_player g' pname = Inr (p\<lparr>account_balance := account_balance p - rent s\<rparr>)
               \<and> get_player g' owner = Inr (q\<lparr>account_balance := account_balance q + rent s\<rparr>)
               \<and> 0 < account_balance p - rent s
               \<and> (\<forall>m. m \<noteq> pname \<and> m \<noteq> owner \<longrightarrow> get_player g' m = get_player g m)
               \<and> game_board g' = game_board g))
       \<and> (account_balance p \<le> rent s \<and> list_all (on_board g) (owned_game_spaces p) \<longrightarrow>
            (\<exists>g'. pay_rent g pname = Inr g'
               \<and> get_player g' pname = Inr (p\<lparr>account_balance := 0, owned_game_spaces := []\<rparr>)
               \<and> get_player g' owner =
                   Inr (q\<lparr>account_balance := account_balance q + account_balance p\<rparr>)
               \<and> (\<forall>m. m \<noteq> pname \<and> m \<noteq> owner \<longrightarrow> get_player g' m = get_player g m)
               \<and> (\<forall>i s'. get_space g i = Inr s' \<longrightarrow>
                     get_space g' i = Inr (if Number i \<in> set (owned_game_spaces p)
                                           then s'\<lparr>game_space_owner := None\<rparr> else s'))))"
proof (intro conjI impI)
  assume less: "rent s < account_balance p"
  define g' where "g' = upd_player owner (deposit (rent s)) (upd_player pname (withdraw (rent s)) g)"
  have "pay_rent g pname = Inr g'"
    using assms less by (simp add: pay_rent_def g'_def)
  moreover have "get_player g' pname = Inr (p\<lparr>account_balance := account_balance p - rent s\<rparr>)"
    using reg other by (simp add: g'_def get_player_upd_player withdraw_def)
  moreover have "get_player g' owner = Inr (q\<lparr>account_balance := account_balance q + rent s\<rparr>)"
    using oreg other by (simp add: g'_def get_player_upd_player deposit_def)
  moreover have "\<forall>m. m \<noteq> pname \<and> m \<noteq> owner \<longrightarrow> get_player g' m = get_player g m"
    by (simp add: g'_def get_player_upd_player)
  moreover have "game_board g' = game_board g"
    by (simp add: g'_def)
  ultimately show "\<exists>g'. pay_rent g pname = Inr g'
               \<and> get_player g' pname = Inr (p\<lparr>account_balance := account_balance p - rent s\<rparr>)
               \<and> get_player g' owner = Inr (q\<lparr>account_balance := account_balance q + rent s\<rparr>)
               \<and> 0 < account_balance p - rent s
               \<and> (\<forall>m. m \<noteq> pname \<and> m \<noteq> owner \<longrightarrow> get_player g' m = get_player g m)
               \<and> game_board g' = game_board g"
    using less by simp
next
  assume "account_balance p \<le> rent s \<and> list_all (on_board g) (owned_game_spaces p)"
  then have geq: "account_balance p \<le> rent s"
    and valid: "list_all (on_board g) (owned_game_spaces p)"
    by simp_all
  define g1 where "g1 = upd_player owner (deposit (account_balance p))
                          (upd_player pname (withdraw (account_balance p)) g)"
  have step: "pay_rent g pname = lose_game g1 pname"
    using assms geq by (simp add: pay_rent_def g1_def)
  have reg1: "get_player g1 pname = Inr (p\<lparr>account_balance := 0\<rparr>)"
    using reg other by (simp add: g1_def get_player_upd_player withdraw_def)
  have oreg1: "get_player g1 owner = Inr (q\<lparr>account_balance := account_balance q + account_balance p\<rparr>)"
    using oreg other by (simp add: g1_def get_player_upd_player deposit_def)
  have others1: "get_player g1 m = get_player g m" if "m \<noteq> pname" "m \<noteq> owner" for m
    using that by (simp add: g1_def get_player_upd_player)
  have sp1: "get_space g1 i = get_space g i" for i
    by (simp add: g1_def)
  have valid1: "list_all (on_board g1) (owned_game_spaces (p\<lparr>account_balance := 0\<rparr>))"
    using valid by (simp add: g1_def list_all_iff)
  from lose_game_result [OF reg1 valid1] obtain g' where
    res: "lose_game g1 pname = Inr g'"
    and sp: "\<forall>i s. get_space g1 i = Inr s \<longrightarrow>
                 get_space g' i = Inr (if Number i \<in> set (owned_game_spaces p)
                                       then s\<lparr>game_space_owner := None\<rparr> else s)"
    and pl: "get_player g' pname = Inr (p\<lparr>account_balance := 0, owned_game_spaces := []\<rparr>)"
    and others: "\<forall>m. m \<noteq> pname \<longrightarrow> get_player g' m = get_player g1 m"
    by auto
  show "\<exists>g'. pay_rent g pname = Inr g'
               \<and> get_player g' pname = Inr (p\<lparr>account_balance := 0, owned_game_spaces := []\<rparr>)
               \<and> get_player g' owner =
                   Inr (q\<lparr>account_balance := account_balance q + account_balance p\<rparr>)
               \<and> (\<forall>m. m \<noteq> pname \<and> m \<noteq> owner \<longrightarrow> get_player g' m = get_player g m)
               \<and> (\<forall>i s'. get_space g i = Inr s' \<longrightarrow>
                     get_space g' i = Inr (if Number i \<in> set (owned_game_spaces p)
                                           then s'\<lparr>game_space_owner := None\<rparr> else s'))"
    using step res sp pl others other oreg1 others1 sp1
    by (intro exI [where x = g']) simp
qed

theorem pay_rent_spec_witness:
  "(\<exists>g'. pay_rent rent_due ''C'' = Inr g'
       \<and> get_player_account_balance g' ''C'' = Inr 50
       \<and> get_player_account_balance g' ''A'' = Inr 51)
   \<and> (\<exists>g'. pay_rent rent_due ''B'' = Inr g'
       \<and> get_player_account_balance g' ''B'' = Inr 0
       \<and> get_player_account_balance g' ''A'' = Inr 31)"
proof -
  have a: "get_player rent_due ''A'' =
             Inr \<lparr>player_name = ''A'', account_balance = 1, current_location = Number 1,
                  owned_game_spaces = [Number 1]\<rparr>"
    by code_simp
  have b: "get_player rent_due ''B'' =
             Inr \<lparr>player_name = ''B'', account_balance = 30, current_location = Number 1,
                  owned_game_spaces = []\<rparr>"
    by code_simp
  have c: "get_player rent_due ''C'' =
             Inr \<lparr>player_name = ''C'', account_balance = 100, current_location = Number 1,
                  owned_game_spaces = []\<rparr>"
    by code_simp
  have sb: "get_space rent_due
              (get_location \<lparr>player_name = ''B'', account_balance = 30,
                 current_location = Number 1, owned_game_spaces = []\<rparr>) =
              Inr (set_game_space_owner ''A'' (GameSpace_init (Number 1) 50))"
    by code_simp
  have sc: "get_space rent_due
              (get_location \<lparr>player_name = ''C'', account_balance = 100,
                 current_location = Number 1, owned_game_spaces = []\<rparr>) =
              Inr (set_game_space_owner ''A'' (GameSpace_init (Number 1) 50))"
    by code_simp
  have own: "game_space_owner (set_game_space_owner ''A'' (GameSpace_init (Number 1) 50)) = Some ''A''"
    by (simp add: set_game_space_owner_def)
  have ngo: "''A'' \<noteq> ''GO''" by simp
  have rc: "rent (set_game_space_owner ''A'' (GameSpace_init (Number 1) 50)) <
            account_balance \<lparr>player_name = ''C'', account_balance = 100,
              current_location = Number 1, owned_game_spaces = []\<rparr>"
    by (simp add: GameSpace_init_def set_game_space_owner_def)
  have rb: "account_balance \<lparr>player_name = ''B'', account_balance = 30,
              current_location = Number 1, owned_game_spaces = []\<rparr>
            \<le> rent (set_game_space_owner ''A'' (GameSpace_init (Number 1) 50))
            \<and> list_all (on_board rent_due)
                (owned_game_spaces \<lparr>player_name = ''B'', account_balance = 30,
                   current_location = Number 1, owned_game_spaces = []\<rparr>)"
    by (simp add: GameSpace_init_def set_game_space_owner_def)
  have nc: "''A'' \<noteq> ''C''" by simp
  have nb: "''A'' \<noteq> ''B''" by simp
  from pay_rent_spec [OF c sc own ngo nc a] rc obtain gc where
    "pay_rent rent_due ''C'' = Inr gc"
    "get_player gc ''C'' =
       Inr (\<lparr>player_name = ''C'', account_balance = 100, current_location = Number 1,
             owned_game_spaces = []\<rparr>
            \<lparr>account_balance := 100 - rent (set_game_space_owner ''A'' (GameSpace_init (Number 1) 50))\<rparr>)"
    "get_player gc ''A'' =
       Inr (\<lparr>player_name = ''A'', account_balance = 1, current_location = Number 1,
             owned_game_spaces = [Number 1]\<rparr>
            \<lparr>account_balance := 1 + rent (set_game_space_owner ''A'' (GameSpace_init (Number 1) 50))\<rparr>)"
    by fastforce
  then have first: "\<exists>g'. pay_rent rent_due ''C'' = Inr g'
       \<and> get_player_account_balance g' ''C'' = Inr 50
       \<and> get_player_account_balance g' ''A'' = Inr 51"
    by (simp add: GameSpace_init_def set_game_space_owner_def get_player_account_balance_def)
  from pay_rent_spec [OF b sb own ngo nb a] rb obtain gb where
    "pay_rent rent_due ''B'' = Inr gb"
    "get_player gb ''B'' =
       Inr (\<lparr>player_name = ''B'', account_balance = 30, current_location = Number 1,
             owned_game_spaces = []\<rparr>
            \<lparr>account_balance := 0, owned_game_spaces := []\<rparr>)"
    "get_player gb ''A'' =
       Inr (\<lparr>player_name = ''A'', account_balance = 1, current_location = Number 1,
             owned_game_spaces = [Number 1]\<rparr>
            \<lparr>account_balance := 1 + 30\<rparr>)"
    by fastforce
  then have "\<exists>g'. pay_rent rent_due ''B'' = Inr g'
       \<and> get_player_account_balance g' ''B'' = Inr 0
       \<and> get_player_account_balance g' ''A'' = Inr 31"
    by (simp add: get_player_account_balance_def)
  with first show ?thesis by simp
qed

text \<open>
  The claim as first stated also covers a space owned by the player who lands on it.
  There the balance paid comes back as the deposit: player A, with balance 2 on their
  own space of rent 50, still has balance 2 after \<^verbatim>\<open>pay_rent\<close>.
\<close>

theorem pay_rent_own_space_balance:
  "get_player own_landing ''A'' =
     Inr \<lparr>player_name = ''A'', account_balance = 2, current_location = Number 1,
          owned_game_spaces = [Number 1]\<rparr>
   \<and> get_space own_landing 1 =
       Inr \<lparr>game_space_name = Number 1, rent = 50, purchase_price = 250,
            game_space_owner = Some ''A''\<rparr>
   \<and> and_then (pay_rent own_landing ''A'') (\<lambda>g'. get_player_account_balance g' ''A'') = Inr 2"
  by code_simp

section \<open>Losing the game\<close>

text \<open>
  C7: \<^verbatim>\<open>lose_game\<close> clears the owner of every space in the player's list of owned
  spaces and changes no other space, empties that list, keeps the player registered
  with the same balance and position, and changes no other player.
\<close>

theorem lose_game_spec:
  assumes reg: "get_player g pname = Inr p"
      and valid: "list_all (on_board g) (owned_game_spaces p)"
  shows "\<exists>g'. lose_game g pname = Inr g'
           \<and> (\<forall>i s. get_space g i = Inr s \<longrightarrow>
                 get_space g' i = Inr (if Number i \<in> set (owned_game_spaces p)
                                       then s\<lparr>game_space_owner := None\<rparr> else s))
           \<and> get_player g' pname = Inr (p\<lparr>owned_game_spaces := []\<rparr>)
           \<and> (\<forall>m. m \<noteq> pname \<longrightarrow> get_player g' m = get_player g m)
           \<and> map fst (players g') = map fst (players g)"
  using assms by (rule lose_game_result)

theorem lose_game_spec_witness:
  "\<exists>g'. lose_game own_space ''A'' = Inr g'
      \<and> get_space g' 1 = Inr (GameSpace_init (Number 1) 50)
      \<and> get_player g' ''A'' =
          Inr \<lparr>player_name = ''A'', account_balance = 1, current_location = Number 1,
               owned_game_spaces = []\<rparr>
      \<and> get_player_account_balance g' ''A'' = Inr 1"
proof -
  have h1: "get_player own_space ''A'' =
              Inr \<lparr>player_name = ''A'', account_balance = 1, current_location = Number 1,
                   owned_game_spaces = [Number 1]\<rparr>"
    by code_simp
  have h2: "list_all (on_board own_space)
              (owned_game_spaces \<lparr>player_name = ''A'', account_balance = 1,
                 current_location = Number 1, owned_game_spaces = [Number 1]\<rparr>)"
    by code_simp
  have h3: "get_space own_space 1 = Inr (set_game_space_owner ''A'' (GameSpace_init (Number 1) 50))"
    by code_simp
  from lose_game_spec [OF h1 h2] h3 show ?thesis
    by (auto simp add: GameSpace_init_def set_game_space_owner_def get_player_account_balance_def)
qed

section \<open>Balances are never negative\<close>

text \<open>
  C8: in every game played from a board with a positive amount for GO and 24 positive
  rents, by players who join with a balance that is not negative, no balance is ever
  negative. In any state, \<^verbatim>\<open>pay_rent\<close> takes from the player who pays, when the space
  is owned by another player, exactly the smaller of the rent and the balance, and
  nothing otherwise.
\<close>

theorem balances_never_negative:
  assumes "valid_setup go_money rent_list" and "list_all valid_operation ops"
      and "play go_money rent_list ops = Inr g"
  shows "(\<forall>n p. get_player g n = Inr p \<longrightarrow> 0 \<le> account_balance p)
       \<and> (\<forall>h pname p s h'.
            get_player h pname = Inr p \<and> get_space h (get_location p) = Inr s
              \<and> pay_rent h pname = Inr h' \<longrightarrow>
            get_player_account_balance h' pname =
              Inr (case game_space_owner s of
                     None \<Rightarrow> account_balance p
                   | Some owner \<Rightarrow>
                       if owner = ''GO'' \<or> owner = pname then account_balance p
                       else account_balance p - min (rent s) (account_balance p)))"
proof -
  from play_ok [OF assms] have "bal_ok g" by (simp add: game_ok_def)
  then show ?thesis
    unfolding bal_ok_def using pay_rent_balance by blast
qed

theorem balances_never_negative_witness:
  "play 1 (replicate 24 50) rent_ops = Inr after_rent
   \<and> get_player after_rent ''B'' =
       Inr \<lparr>player_name = ''B'', account_balance = 0, current_location = Number 1,
            owned_game_spaces = []\<rparr>
   \<and> get_player after_rent ''A'' =
       Inr \<lparr>player_name = ''A'', account_balance = 31, current_location = Number 1,
            owned_game_spaces = [Number 1]\<rparr>
   \<and> (0::int) \<le> account_balance \<lparr>player_name = ''B'', account_balance = 0,
          current_location = Number 1, owned_game_spaces = []\<rparr>"
proof -
  have h1: "valid_setup 1 (replicate 24 50)"
    by (simp add: valid_setup_def list_all_iff)
  have h2: "list_all valid_operation rent_ops"
    by (simp add: rent_ops_def own_space_ops_def)
  have h3: "play 1 (replicate 24 50) rent_ops = Inr after_rent"
    by code_simp
  have b: "get_player after_rent ''B'' =
       Inr \<lparr>player_name = ''B'', account_balance = 0, current_location = Number 1,
            owned_game_spaces = []\<rparr>"
    by code_simp
  have a: "get_player after_rent ''A'' =
       Inr \<lparr>player_name = ''A'', account_balance = 31, current_location = Number 1,
            owned_game_spaces = [Number 1]\<rparr>"
    by code_simp
  from balances_never_negative [OF h1 h2 h3] b
  have "(0::int) \<le> account_balance \<lparr>player_name = ''B'', account_balance = 0,
          current_location = Number 1, owned_game_spaces = []\<rparr>"
    by blast
  with h3 a b show ?thesis by simp
qed

section \<open>Owners and lists of owned spaces agree\<close>

text \<open>
  C10: in every game played from a new board, whatever the amounts, a space has player
  p as its owner exactly when the name of the space is in p's list of owned spaces; no
  name is in the lists of two players, and no list has a name twice.
\<close>

theorem ownership_consistent:
  assumes "play go_money rent_list ops = Inr g"
  shows "(\<forall>i s n p. get_space g i = Inr s \<and> get_player g n = Inr p \<longrightarrow>
            (game_space_owner s = Some n \<longleftrightarrow> game_space_name s \<in> set (owned_game_spaces p)))
       \<and> (\<forall>n m p q nm. get_player g n = Inr p \<and> get_player g m = Inr q \<and> n \<noteq> m
              \<and> nm \<in> set (owned_game_spaces p) \<longrightarrow> nm \<notin> set (owned_game_spaces q))
       \<and> (\<forall>n p. get_player g n = Inr p \<longrightarrow> distinct (owned_game_spaces p))"
proof -
  from play_hold [OF assms] have nm: "names_ok g" and li: "lists_ok g" and ow: "owners_ok g"
    by (simp_all add: hold_ok_def)
  have listed: "\<exists>j t. x = Number j \<and> get_space g j = Inr t \<and> game_space_name t = x
      \<and> game_space_owner t = Some n"
    if "get_player g n = Inr p" "x \<in> set (owned_game_spaces p)" for n p x
    using li that unfolding lists_ok_def by blast
  have name: "game_space_name s = (if i = 0 then GO else Number i)"
    if "get_space g i = Inr s" for i s
    using nm that by (simp add: names_ok_def)
  have "game_space_owner s = Some n \<longleftrightarrow> game_space_name s \<in> set (owned_game_spaces p)"
    if s: "get_space g i = Inr s" and p: "get_player g n = Inr p" for i s n p
  proof
    assume "game_space_owner s = Some n"
    with ow s p have in_list: "Number i \<in> set (owned_game_spaces p)"
      unfolding owners_ok_def by fastforce
    from listed [OF p in_list] obtain t where "get_space g i = Inr t" "game_space_name t = Number i"
      by auto
    with s in_list show "game_space_name s \<in> set (owned_game_spaces p)" by simp
  next
    assume "game_space_name s \<in> set (owned_game_spaces p)"
    from listed [OF p this] obtain j t where t: "game_space_name s = Number j"
      "get_space g j = Inr t" "game_space_owner t = Some n"
      by auto
    from name [OF s] t(1) have "j = i" by (auto split: if_splits)
    with t s show "game_space_owner s = Some n" by simp
  qed
  moreover have "nm \<notin> set (owned_game_spaces q)"
    if "get_player g n = Inr p" "get_player g m = Inr q" "n \<noteq> m"
      "nm \<in> set (owned_game_spaces p)" for n m p q nm
  proof
    assume "nm \<in> set (owned_game_spaces q)"
    from listed [OF that(2) this] listed [OF that(1) that(4)] that(3)
    show False by auto
  qed
  moreover have "distinct (owned_game_spaces p)" if "get_player g n = Inr p" for n p
    using li that unfolding lists_ok_def by blast
  ultimately show ?thesis by blast
qed

theorem ownership_consistent_witness:
  "play 1 (replicate 24 50) rent_ops = Inr after_rent
   \<and> get_space after_rent 1 =
       Inr \<lparr>game_space_name = Number 1, rent = 50, purchase_price = 250,
            game_space_owner = Some ''A''\<rparr>
   \<and> Number 1 \<in> set (owned_game_spaces \<lparr>player_name = ''A'', account_balance = 31,
         current_location = Number 1, owned_game_spaces = [Number 1]\<rparr>)
   \<and> Number 1 \<notin> set (owned_game_spaces \<lparr>player_name = ''B'', account_balance = 0,
         current_location = Number 1, owned_game_spaces = []\<rparr>)"
proof -
  have h: "play 1 (replicate 24 50) rent_ops = Inr after_rent"
    by code_simp
  have s: "get_space after_rent 1 =
       Inr \<lparr>game_space_name = Number 1, rent = 50, purchase_price = 250,
            game_space_owner = Some ''A''\<rparr>"
    by code_simp
  have a: "get_player after_rent ''A'' =
       Inr \<lparr>player_name = ''A'', account_balance = 31, current_location = Number 1,
            owned_game_spaces = [Number 1]\<rparr>"
    by code_simp
  have b: "get_player after_rent ''B'' =
       Inr \<lparr>player_name = ''B'', account_balance = 0, current_location = Number 1,
            owned_game_spaces = []\<rparr>"
    by code_simp
  have "game_space_name \<lparr>game_space_name = Number 1, rent = 50, purchase_price = 250,
            game_space_owner = Some ''A''\<rparr>
        \<in> set (owned_game_spaces \<lparr>player_name = ''A'', account_balance = 31,
             current_location = Number 1, owned_game_spaces = [Number 1]\<rparr>)"
    using ownership_consistent [OF h, THEN conjunct1, rule_format, OF conjI, OF s a]
    by simp
  moreover
  have "Number 1 \<notin> set (owned_game_spaces \<lparr>player_name = ''B'', account_balance = 0,
         current_location = Number 1, owned_game_spaces = []\<rparr>)"
    by (rule ownership_consistent [OF h, THEN conjunct2, THEN conjunct1, rule_format,
          of "''A''" "\<lparr>player_name = ''A'', account_balance = 31,
             current_location = Number 1, owned_game_spaces = [Number 1]\<rparr>" "''B''"])
       (simp add: a b)
  ultimately show ?thesis using h s by simp
qed

section \<open>A player with balance 0 stays as they are\<close>

text \<open>
  C6: in a game played from a board with a positive amount for GO and 24 positive rents,
  by players who join with a balance that is not negative, a player whose balance is 0
  is never changed again: after any further operations their balance, position and list
  of owned spaces are the same, \<^verbatim>\<open>move_player\<close> on them returns the game as it is and
  \<^verbatim>\<open>buy_space\<close> on them returns false and the game as it is.
\<close>

theorem eliminated_player_frozen:
  assumes "valid_setup go_money rent_list" and "list_all valid_operation ops"
      and "play go_money rent_list ops = Inr g"
      and "get_player g pname = Inr p" and "account_balance p = 0"
      and "list_all valid_operation later" and "run g later = Inr g'"
  shows "get_player g' pname = Inr p
       \<and> move_player g' pname n = Inr g'
       \<and> buy_space g' pname = Inr (False, g')"
proof -
  from assms(1-3) have ok: "game_ok g" by (rule play_ok)
  from run_ok [OF ok assms(6,7)] have ok': "game_ok g'" .
  from eliminated_run [OF ok assms(6) assms(4,5) assms(7)]
  have reg': "get_player g' pname = Inr p" .
  with eliminated_noop [OF ok' reg' assms(5)] show ?thesis by simp
qed

theorem eliminated_player_frozen_witness:
  "get_player after_rent ''B'' =
     Inr \<lparr>player_name = ''B'', account_balance = 0, current_location = Number 1,
          owned_game_spaces = []\<rparr>
   \<and> run after_rent later_ops = Inr after_later
   \<and> get_player after_later ''B'' =
       Inr \<lparr>player_name = ''B'', account_balance = 0, current_location = Number 1,
            owned_game_spaces = []\<rparr>
   \<and> get_player_account_balance after_later ''A'' = Inr 81
   \<and> move_player after_later ''B'' 3 = Inr after_later
   \<and> buy_space after_later ''B'' = Inr (False, after_later)"
proof -
  have h1: "valid_setup 1 (replicate 24 50)"
    by (simp add: valid_setup_def list_all_iff)
  have h2: "list_all valid_operation rent_ops"
    by (simp add: rent_ops_def own_space_ops_def)
  have h3: "play 1 (replicate 24 50) rent_ops = Inr after_rent"
    by code_simp
  have h4: "get_player after_rent ''B'' =
     Inr \<lparr>player_name = ''B'', account_balance = 0, current_location = Number 1,
          owned_game_spaces = []\<rparr>"
    by code_simp
  have h5: "account_balance \<lparr>player_name = ''B'', account_balance = 0,
              current_location = Number 1, owned_game_spaces = []\<rparr> = 0"
    by simp
  have h6: "list_all valid_operation later_ops"
    by (simp add: later_ops_def)
  have h7: "run after_rent later_ops = Inr after_later"
    by code_simp
  have a: "get_player_account_balance after_later ''A'' = Inr 81"
    by code_simp
  from eliminated_player_frozen [OF h1 h2 h3 h4 h5 h6 h7, of 3] h4 h7 a
  show ?thesis by simp
qed

end
